theory Spec2Isabelle
  imports Main "HOL-Library.Word"
begin

unbundle bit_operations_syntax

section \<open>Overview\<close>

text \<open>
  A shallow embedding of googlysync's change-detection pipeline:
  \<^item> \<open>internal/status/status.go\<close>: the status store (\<open>NewStore\<close>, \<open>SetMaxEvents\<close>, \<open>Update\<close>,
    \<open>AddEvent\<close>, \<open>Current\<close>), over an explicit heap of slice backing arrays, since the store
    hands out copies of its ring;
  \<^item> \<open>internal/sync\<close> queue (\<open>NewQueue\<close>, \<open>Enqueue\<close>), a buffered channel with a
    non-blocking send;
  \<^item> \<open>internal/fswatch/fswatch.go\<close>: the watcher (\<open>shouldIgnore\<close>, \<open>normalizeOp\<close>, \<open>mergeOp\<close>,
    \<open>addRecursive\<close>, \<open>Start\<close>, \<open>handleEvent\<close>, \<open>flushPending\<close>, \<open>run\<close>).

  Every operation of the source that holds the mutex is one atomic function on the
  state. Clock readings (\<open>time.Now()\<close>) are arguments. The operating system and the
  libraries the source calls (\<open>os\<close>, \<open>path/filepath\<close>, \<open>fsnotify\<close>) are parameters: records
  of functions giving the outcome of each call. A Go panic is the value \<open>None\<close>.
\<close>

section \<open>Time and the status event\<close>

text \<open>
  \<open>time.Time\<close> is the number of nanoseconds since the zero time, so \<open>IsZero\<close> is equality
  with 0, \<open>Add\<close> is addition and \<open>Before\<close> and \<open>Equal\<close> are \<open><\<close> and \<open>=\<close>.
  \<open>status_Event\<close> is \<open>status.Event\<close>; its fields \<open>Op\<close>, \<open>Path\<close>, \<open>When\<close> carry the prefix \<open>s\<close>
  to keep them apart from those of \<open>fswatch.Event\<close>.
\<close>

type_synonym time = int

record status_Event =
  sOp :: string
  sPath :: string
  sWhen :: time

definition zeroEvent :: status_Event where
  "zeroEvent = \<lparr>sOp = [], sPath = [], sWhen = 0\<rparr>"

section \<open>Go slices over a heap of backing arrays\<close>

text \<open>
  A slice is nil or a window (offset, length) into a backing array; its capacity is what
  is left of the array from the offset. The heap is the list of the backing arrays
  allocated so far, an address is an index into it, and allocation appends, so a new
  address is one no earlier slice holds. \<open>growth\<close> is the runtime's capacity policy (old
  capacity, needed length), left open: the capacity chosen is never below what is needed.
  \<^item> \<open>go_append\<close> is \<open>append(s, e)\<close>: in place when the capacity allows, else into a new array;
  \<^item> \<open>go_clone\<close> is \<open>append([]Event(nil), s...)\<close>: nil for an empty \<open>s\<close>, else a new array;
  \<^item> \<open>go_slice_from\<close> is \<open>s[lo:]\<close>, which panics unless \<open>0 \<le> lo \<le> len(s)\<close>;
  \<^item> \<open>aliases\<close> says that two slices share a backing array.
\<close>

type_synonym addr = nat

datatype slice = NilSlice | Slice (base: addr) (off: nat) (len: nat)

record runtime =
  arrays :: "status_Event list list"
  growth :: "nat \<Rightarrow> nat \<Rightarrow> nat"

definition slice_len :: "slice \<Rightarrow> nat" where
  "slice_len s = (case s of NilSlice \<Rightarrow> 0 | Slice a i n \<Rightarrow> n)"

definition slice_cap :: "runtime \<Rightarrow> slice \<Rightarrow> nat" where
  "slice_cap rt s = (case s of NilSlice \<Rightarrow> 0 | Slice a i n \<Rightarrow> length (arrays rt ! a) - i)"

definition elems :: "runtime \<Rightarrow> slice \<Rightarrow> status_Event list" where
  "elems rt s = (case s of NilSlice \<Rightarrow> [] | Slice a i n \<Rightarrow> take n (drop i (arrays rt ! a)))"

definition valid :: "runtime \<Rightarrow> slice \<Rightarrow> bool" where
  "valid rt s = (case s of NilSlice \<Rightarrow> True
     | Slice a i n \<Rightarrow> a < length (arrays rt) \<and> i + n \<le> length (arrays rt ! a))"

definition aliases :: "slice \<Rightarrow> slice \<Rightarrow> bool" where
  "aliases s t = (case (s, t) of (Slice a _ _, Slice b _ _) \<Rightarrow> a = b | _ \<Rightarrow> False)"

definition alloc :: "runtime \<Rightarrow> status_Event list \<Rightarrow> nat \<Rightarrow> runtime \<times> addr" where
  "alloc rt xs c =
     (rt\<lparr>arrays := arrays rt @ [xs @ replicate (c - length xs) zeroEvent]\<rparr>, length (arrays rt))"

definition newcap :: "runtime \<Rightarrow> nat \<Rightarrow> nat \<Rightarrow> nat" where
  "newcap rt old need = max need (growth rt old need)"

definition go_append :: "runtime \<Rightarrow> slice \<Rightarrow> status_Event \<Rightarrow> runtime \<times> slice" where
  "go_append rt s e =
     (case s of
        Slice a i n \<Rightarrow>
          if n < slice_cap rt s
          then (rt\<lparr>arrays := (arrays rt)[a := (arrays rt ! a)[i + n := e]]\<rparr>, Slice a i (n + 1))
          else (case alloc rt (elems rt s @ [e]) (newcap rt (slice_cap rt s) (n + 1)) of
                  (rt', a') \<Rightarrow> (rt', Slice a' 0 (n + 1)))
      | NilSlice \<Rightarrow>
          (case alloc rt [e] (newcap rt 0 1) of (rt', a') \<Rightarrow> (rt', Slice a' 0 1)))"

definition go_clone :: "runtime \<Rightarrow> slice \<Rightarrow> runtime \<times> slice" where
  "go_clone rt s =
     (if slice_len s = 0 then (rt, NilSlice)
      else (case alloc rt (elems rt s) (newcap rt 0 (slice_len s)) of
              (rt', a') \<Rightarrow> (rt', Slice a' 0 (slice_len s))))"

definition go_slice_from :: "slice \<Rightarrow> int \<Rightarrow> slice option" where
  "go_slice_from s lo =
     (if 0 \<le> lo \<and> lo \<le> int (slice_len s)
      then Some (case s of NilSlice \<Rightarrow> NilSlice | Slice a i n \<Rightarrow> Slice a (i + nat lo) (n - nat lo))
      else None)"

section \<open>The status store (status.go)\<close>

text \<open>
  \<open>trim r m\<close> is the statement
  \<^verbatim>\<open>if len(ring) > max { ring = ring[len(ring)-max:] }\<close>
  of \<open>SetMaxEvents\<close> and \<open>AddEvent\<close>. \<open>AddEvent\<close> reads the clock twice: \<open>now1\<close> for an unset
  \<open>When\<close>, \<open>now2\<close> for \<open>UpdatedAt\<close>.
\<close>

datatype State = StateUnspecified | StateIdle | StateSyncing | StateError | StatePaused

record Snapshot =
  State :: State
  Message :: string
  LastEvent :: string
  UpdatedAt :: time
  RecentEvents :: slice

record Store =
  snapshot :: Snapshot
  maxEvents :: int
  eventRing :: slice

definition IsZero :: "time \<Rightarrow> bool" where
  "IsZero t = (t = 0)"

definition NewStore :: "time \<Rightarrow> Store" where
  "NewStore now =
     \<lparr>snapshot = \<lparr>State = StateIdle, Message = ''idle'', LastEvent = [], UpdatedAt = now,
                   RecentEvents = NilSlice\<rparr>,
      maxEvents = 20, eventRing = NilSlice\<rparr>"

definition trim :: "slice \<Rightarrow> int \<Rightarrow> slice option" where
  "trim r m = (if int (slice_len r) > m then go_slice_from r (int (slice_len r) - m) else Some r)"

definition SetMaxEvents :: "int \<Rightarrow> runtime \<times> Store \<Rightarrow> (runtime \<times> Store) option" where
  "SetMaxEvents mx rs =
     (case rs of (rt, s) \<Rightarrow>
        if mx \<le> 0 then Some (rt, s)
        else (case trim (eventRing s) mx of
                None \<Rightarrow> None
              | Some r \<Rightarrow>
                  (case go_clone rt r of
                     (rt', c) \<Rightarrow>
                       Some (rt', s\<lparr>maxEvents := mx, eventRing := r,
                                     snapshot := (snapshot s)\<lparr>RecentEvents := c\<rparr>\<rparr>))))"

definition Update :: "Snapshot \<Rightarrow> time \<Rightarrow> runtime \<times> Store \<Rightarrow> runtime \<times> Store" where
  "Update snap now rs =
     (case rs of (rt, s) \<Rightarrow>
        let snap1 = (if IsZero (UpdatedAt snap) then snap\<lparr>UpdatedAt := now\<rparr> else snap);
            snap2 = (if LastEvent snap1 = [] then snap1\<lparr>LastEvent := LastEvent (snapshot s)\<rparr> else snap1)
        in (case go_clone rt (eventRing s) of
              (rt', c) \<Rightarrow> (rt', s\<lparr>snapshot := snap2\<lparr>RecentEvents := c\<rparr>\<rparr>)))"

definition AddEvent :: "status_Event \<Rightarrow> time \<Rightarrow> time \<Rightarrow> runtime \<times> Store \<Rightarrow> (runtime \<times> Store) option" where
  "AddEvent evt now1 now2 rs =
     (case rs of (rt, s) \<Rightarrow>
        let evt1 = (if IsZero (sWhen evt) then evt\<lparr>sWhen := now1\<rparr> else evt)
        in (case go_append rt (eventRing s) evt1 of
              (rt1, r1) \<Rightarrow>
                (case trim r1 (maxEvents s) of
                   None \<Rightarrow> None
                 | Some r2 \<Rightarrow>
                     (case go_clone rt1 r2 of
                        (rt2, c) \<Rightarrow>
                          Some (rt2, s\<lparr>eventRing := r2,
                                        snapshot := (snapshot s)\<lparr>LastEvent := sOp evt1 @ '' '' @ sPath evt1,
                                                                  UpdatedAt := now2,
                                                                  RecentEvents := c\<rparr>\<rparr>)))))"

definition Current :: "runtime \<times> Store \<Rightarrow> runtime \<times> Snapshot" where
  "Current rs =
     (case rs of (rt, s) \<Rightarrow>
        (case go_clone rt (eventRing s) of
           (rt', c) \<Rightarrow> (rt', (snapshot s)\<lparr>RecentEvents := c\<rparr>)))"


section \<open>Channels and the sync queue\<close>

text \<open>
  A buffered channel is its capacity and the list of buffered items, oldest first.
  \<open>try_send\<close> is the send of a \<^verbatim>\<open>select\<close> with a \<^verbatim>\<open>default\<close> branch: \<open>None\<close> when the buffer is
  full. \<open>try_recv\<close> is a consumer taking the oldest item. The logger is the list of the
  warnings written, each with the path it names. \<open>Queue\<close> is the queue of package \<open>sync\<close>;
  allocation failure for a huge capacity is outside the model.
\<close>

record 'a chan =
  ch_cap :: nat
  ch_buf :: "'a list"

definition make_chan :: "nat \<Rightarrow> 'a chan" where
  "make_chan c = \<lparr>ch_cap = c, ch_buf = []\<rparr>"

definition try_send :: "'a \<Rightarrow> 'a chan \<Rightarrow> 'a chan option" where
  "try_send x c = (if length (ch_buf c) < ch_cap c then Some (c\<lparr>ch_buf := ch_buf c @ [x]\<rparr>) else None)"

definition try_recv :: "'a chan \<Rightarrow> ('a \<times> 'a chan) option" where
  "try_recv c = (case ch_buf c of [] \<Rightarrow> None | x # xs \<Rightarrow> Some (x, c\<lparr>ch_buf := xs\<rparr>))"

datatype Op = OpUnknown | OpCreate | OpWrite | OpRemove | OpRename | OpChmod

record Event =
  Path :: string
  Op :: Op
  When :: time

type_synonym log_entry = "string \<times> string"

record Queue =
  q_logger :: "log_entry list"
  ch :: "Event chan"

definition NewQueue :: "int \<Rightarrow> Queue" where
  "NewQueue capacity =
     (let capacity1 = (if capacity \<le> 0 then 1024 else capacity)
      in \<lparr>q_logger = [], ch = make_chan (nat capacity1)\<rparr>)"

definition Enqueue :: "Event \<Rightarrow> Queue \<Rightarrow> Queue" where
  "Enqueue evt q =
     (case try_send evt (ch q) of
        Some c \<Rightarrow> q\<lparr>ch := c\<rparr>
      | None \<Rightarrow> q\<lparr>q_logger := q_logger q @ [(''sync queue full; dropping event'', Path evt)]\<rparr>)"

datatype queue_op = DoEnqueue Event | DoReceive

fun queue_step :: "queue_op \<Rightarrow> Queue \<Rightarrow> Queue" where
  "queue_step (DoEnqueue e) q = Enqueue e q"
| "queue_step DoReceive q = (case try_recv (ch q) of None \<Rightarrow> q | Some (x, c) \<Rightarrow> q\<lparr>ch := c\<rparr>)"

section \<open>The filesystem watcher (fswatch.go)\<close>

text \<open>
  \<open>fsnotify.Op\<close> is a 32-bit mask; the five bit values are those of the fsnotify library.
  \<open>stdlib\<close> holds the functions of \<open>path/filepath\<close> that the watcher calls and that are not
  modelled (\<open>Match\<close> gives the boolean of its result pair, \<open>Rel\<close> is \<open>None\<close> on error);
  \<open>filepath_Base\<close> is \<open>filepath.Base\<close> for slash-separated paths. \<open>os_env\<close> is what the
  operating system answers at one moment: the outcome of \<open>os.MkdirAll\<close>, the tree that
  \<open>os.Lstat\<close> and \<open>os.ReadDir\<close> show under a path (\<open>fsnode\<close>: a file, or a directory with the
  error of reading it, if any, and its entries), whether \<open>os.Stat\<close> finds a directory, and
  the outcome of the fsnotify watcher's \<open>Add\<close>.
\<close>

record fsnotify_Event =
  Name :: string
  fsOp :: "32 word"

definition fsnotify_Create :: "32 word" where "fsnotify_Create = 1"
definition fsnotify_Write :: "32 word" where "fsnotify_Write = 2"
definition fsnotify_Remove :: "32 word" where "fsnotify_Remove = 4"
definition fsnotify_Rename :: "32 word" where "fsnotify_Rename = 8"
definition fsnotify_Chmod :: "32 word" where "fsnotify_Chmod = 16"

definition normalizeOp :: "32 word \<Rightarrow> Op" where
  "normalizeOp op =
     (if op AND fsnotify_Create = fsnotify_Create then OpCreate
      else if op AND fsnotify_Write = fsnotify_Write then OpWrite
      else if op AND fsnotify_Remove = fsnotify_Remove then OpRemove
      else if op AND fsnotify_Rename = fsnotify_Rename then OpRename
      else if op AND fsnotify_Chmod = fsnotify_Chmod then OpChmod
      else OpUnknown)"

fun priority :: "Op \<Rightarrow> int" where
  "priority OpRemove = 5"
| "priority OpRename = 4"
| "priority OpCreate = 3"
| "priority OpWrite = 2"
| "priority OpChmod = 1"
| "priority OpUnknown = 0"

definition mergeOp :: "Op \<Rightarrow> Op \<Rightarrow> Op" where
  "mergeOp current next = (if priority next \<ge> priority current then next else current)"

fun opString :: "Op \<Rightarrow> string" where
  "opString OpCreate = ''CREATE''"
| "opString OpWrite = ''WRITE''"
| "opString OpRemove = ''REMOVE''"
| "opString OpRename = ''RENAME''"
| "opString OpChmod = ''CHMOD''"
| "opString OpUnknown = ''UNKNOWN''"

record Config =
  SyncRoot :: string
  IgnorePatterns :: "string list"
  EventLogSize :: int
  SyncQueueSize :: int
  DatabasePath :: string
  LogFilePath :: string
  SocketPath :: string

record stdlib =
  filepath_Match :: "string \<Rightarrow> string \<Rightarrow> bool"
  filepath_Rel :: "string \<Rightarrow> string \<Rightarrow> string option"
  filepath_Join :: "string \<Rightarrow> string \<Rightarrow> string"

datatype error = Err string

datatype fsnode = File | Dir "error option" "(string \<times> fsnode) list"

record os_env =
  os_MkdirAll :: "string \<Rightarrow> error option"
  os_Lstat :: "string \<Rightarrow> error + fsnode"
  os_Stat_IsDir :: "string \<Rightarrow> bool"
  fsnotify_Add :: "string \<Rightarrow> error option"

definition filepath_Base :: "string \<Rightarrow> string" where
  "filepath_Base path =
     (if path = [] then ''.''
      else let stripped = rev (dropWhile (\<lambda>c. c = CHR ''/'') (rev path))
           in if stripped = [] then ''/''
              else rev (takeWhile (\<lambda>c. c \<noteq> CHR ''/'') (rev stripped)))"

definition hasSuffix :: "string \<Rightarrow> string \<Rightarrow> bool" where
  "hasSuffix b suf = (length b \<ge> length suf \<and> drop (length b - length suf) b = suf)"

definition suffixes :: "string list" where
  "suffixes = [''.swp'', ''.tmp'', ''~'', ''.DS_Store'']"

definition shouldIgnore :: "stdlib \<Rightarrow> Config \<Rightarrow> string \<Rightarrow> bool" where
  "shouldIgnore L cfg path =
     (let b = filepath_Base path
      in if b = ''.'' \<or> b = ''..'' then True
         else if LogFilePath cfg \<noteq> [] \<and> path = LogFilePath cfg then True
         else if DatabasePath cfg \<noteq> [] \<and> path = DatabasePath cfg then True
         else if SocketPath cfg \<noteq> [] \<and> path = SocketPath cfg then True
         else if list_ex (\<lambda>pat. filepath_Match L pat b) (IgnorePatterns cfg) then True
         else if list_ex (\<lambda>suf. hasSuffix b suf) suffixes then True
         else False)"

definition newStatusStore :: "Config \<Rightarrow> time \<Rightarrow> runtime \<Rightarrow> (runtime \<times> Store) option" where
  "newStatusStore cfg now rt = SetMaxEvents (EventLogSize cfg) (rt, NewStore now)"

definition newSyncQueue :: "Config \<Rightarrow> Queue" where
  "newSyncQueue cfg = NewQueue (SyncQueueSize cfg)"

text \<open>
  The watcher's state. \<open>watcher\<close> is the fsnotify watcher: the paths added to it, in order.
  \<open>status\<close> and \<open>heap\<close> are the shared status store and the heap its slices live in.
  \<open>running\<close> records that \<open>Start\<close> has launched the goroutine \<open>run\<close>, and \<open>mkdir_calls\<close> the
  paths \<open>os.MkdirAll\<close> was called on.
\<close>

record Watcher =
  watcher :: "string list"
  out :: "Event chan"
  pending :: "string \<rightharpoonup> Event"
  debounce :: int
  status :: Store
  heap :: runtime
  logger :: "log_entry list"
  running :: bool
  mkdir_calls :: "string list"

definition NewWatcher :: "error option \<Rightarrow> runtime \<times> Store \<Rightarrow> error + Watcher" where
  "NewWatcher fsnotify_err rs =
     (case fsnotify_err of
        Some e \<Rightarrow> Inl e
      | None \<Rightarrow>
          Inr \<lparr>watcher = [], out = make_chan 256, pending = Map.empty,
               debounce = 300 * 1000000, status = snd rs, heap = fst rs,
               logger = [], running = False, mkdir_calls = []\<rparr>)"

definition Close :: "(string list \<Rightarrow> error option \<times> string list) \<Rightarrow> Watcher \<Rightarrow> error option \<times> Watcher" where
  \<comment> \<open>\<open>fsnotify_Close\<close> is the library's \<open>Close\<close> on the fsnotify watcher: its result and the
      subscriptions it leaves. The field \<open>watcher\<close> is never nil in a \<open>Watcher\<close> that
      \<open>NewWatcher\<close> built, so the branch of the source that returns nil for a nil
      field has no state to apply to.\<close>
  "Close fsnotify_Close w =
     (case fsnotify_Close (watcher w) of (r, ws) \<Rightarrow> (r, w\<lparr>watcher := ws\<rparr>))"

text \<open>
  \<open>visit\<close> is the function literal that \<open>addRecursive\<close> passes to \<open>filepath.WalkDir\<close>;
  \<open>walkDir\<close>, \<open>walkEntries\<close> and \<open>WalkDir\<close> are the library's traversal: the callback's result
  \<open>nil\<close>, \<open>filepath.SkipDir\<close> or an error is a \<open>walk_result\<close>.
\<close>

datatype walk_result = Continue | SkipDir | Fail error

definition visit ::
  "stdlib \<Rightarrow> Config \<Rightarrow> os_env \<Rightarrow> string \<Rightarrow> bool \<Rightarrow> error option \<Rightarrow> string list
     \<Rightarrow> walk_result \<times> string list" where
  "visit L cfg os path isDir err ws =
     (case err of
        Some e \<Rightarrow> (Fail e, ws)
      | None \<Rightarrow>
          if shouldIgnore L cfg path then (if isDir then (SkipDir, ws) else (Continue, ws))
          else if isDir then
            (case fsnotify_Add os path of
               Some e \<Rightarrow> (Fail e, ws)
             | None \<Rightarrow> (Continue, ws @ [path]))
          else (Continue, ws))"

fun walkDir ::
  "stdlib \<Rightarrow> Config \<Rightarrow> os_env \<Rightarrow> string \<Rightarrow> fsnode \<Rightarrow> string list \<Rightarrow> walk_result \<times> string list"
and walkEntries ::
  "stdlib \<Rightarrow> Config \<Rightarrow> os_env \<Rightarrow> string \<Rightarrow> (string \<times> fsnode) list \<Rightarrow> string list
     \<Rightarrow> walk_result \<times> string list" where
  "walkDir L cfg os path File ws = visit L cfg os path False None ws"
| "walkDir L cfg os path (Dir rerr es) ws =
     (case visit L cfg os path True None ws of
        (Fail e, ws1) \<Rightarrow> (Fail e, ws1)
      | (SkipDir, ws1) \<Rightarrow> (Continue, ws1)
      | (Continue, ws1) \<Rightarrow>
          (case rerr of
             None \<Rightarrow> walkEntries L cfg os path es ws1
           | Some e \<Rightarrow>
               (case visit L cfg os path True (Some e) ws1 of
                  (Fail e', ws2) \<Rightarrow> (Fail e', ws2)
                | (SkipDir, ws2) \<Rightarrow> (Continue, ws2)
                | (Continue, ws2) \<Rightarrow> walkEntries L cfg os path es ws2)))"
| "walkEntries L cfg os path [] ws = (Continue, ws)"
| "walkEntries L cfg os path (d1 # es) ws =
     (case walkDir L cfg os (filepath_Join L path (fst d1)) (snd d1) ws of
        (Fail e, ws1) \<Rightarrow> (Fail e, ws1)
      | (SkipDir, ws1) \<Rightarrow> (Continue, ws1)
      | (Continue, ws1) \<Rightarrow> walkEntries L cfg os path es ws1)"

definition WalkDir :: "stdlib \<Rightarrow> Config \<Rightarrow> os_env \<Rightarrow> string \<Rightarrow> string list \<Rightarrow> error option \<times> string list" where
  "WalkDir L cfg os root ws =
     (case (case os_Lstat os root of
              Inl e \<Rightarrow> visit L cfg os root False (Some e) ws
            | Inr info \<Rightarrow> walkDir L cfg os root info ws) of
        (Fail e, ws') \<Rightarrow> (Some e, ws')
      | (_, ws') \<Rightarrow> (None, ws'))"

definition addRecursive :: "stdlib \<Rightarrow> Config \<Rightarrow> os_env \<Rightarrow> string \<Rightarrow> Watcher \<Rightarrow> error option \<times> Watcher" where
  "addRecursive L cfg os root w =
     (case WalkDir L cfg os root (watcher w) of (r, ws) \<Rightarrow> (r, w\<lparr>watcher := ws\<rparr>))"

definition status_Update :: "Snapshot \<Rightarrow> time \<Rightarrow> Watcher \<Rightarrow> Watcher" where
  "status_Update snap now w =
     (case Update snap now (heap w, status w) of (rt, s) \<Rightarrow> w\<lparr>heap := rt, status := s\<rparr>)"

definition Start :: "stdlib \<Rightarrow> Config \<Rightarrow> os_env \<Rightarrow> time \<Rightarrow> Watcher \<Rightarrow> error option \<times> Watcher" where
  "Start L cfg os now w =
     (if SyncRoot cfg = [] then (None, w)
      else let w1 = w\<lparr>mkdir_calls := mkdir_calls w @ [SyncRoot cfg]\<rparr>
           in (case os_MkdirAll os (SyncRoot cfg) of
                 Some e \<Rightarrow> (Some e, w1)
               | None \<Rightarrow>
                   (case addRecursive L cfg os (SyncRoot cfg) w1 of
                      (Some e, w2) \<Rightarrow> (Some e, w2)
                    | (None, w2) \<Rightarrow>
                        (None, (status_Update
                                  \<lparr>State = StateIdle, Message = ''watching'', LastEvent = [],
                                   UpdatedAt = 0, RecentEvents = NilSlice\<rparr> now w2)
                               \<lparr>running := True\<rparr>))))"

definition handleEvent :: "stdlib \<Rightarrow> Config \<Rightarrow> os_env \<Rightarrow> time \<Rightarrow> fsnotify_Event \<Rightarrow> Watcher \<Rightarrow> Watcher" where
  "handleEvent L cfg os now evt w =
     (let path = Name evt
      in if shouldIgnore L cfg path then w
         else let w1 = (if fsOp evt AND fsnotify_Create = fsnotify_Create \<and> os_Stat_IsDir os path
                        then snd (addRecursive L cfg os path w) else w);
                  op = normalizeOp (fsOp evt)
              in if op = OpUnknown then w1
                 else w1\<lparr>pending := (pending w1)(path \<mapsto> \<lparr>Path = path, Op = op, When = now + debounce w1\<rparr>)\<rparr>)"

definition formatEvent :: "stdlib \<Rightarrow> Event \<Rightarrow> string \<Rightarrow> string" where
  "formatEvent L evt root =
     (let path = (if root \<noteq> []
                  then (case filepath_Rel L root (Path evt) of Some rel \<Rightarrow> rel | None \<Rightarrow> Path evt)
                  else Path evt)
      in opString (Op evt) @ '' '' @ path)"

definition SetLastEvent :: "string \<Rightarrow> Store \<Rightarrow> Store" where
  \<comment> \<open>Modelled from the spec: \<open>Store.SetLastEvent\<close>, which \<open>flushPending\<close> calls, is not in
      status.go. The specification has the flush write a summary string to the store's
      last-event field; nothing else of the store is touched.\<close>
  "SetLastEvent summary s = s\<lparr>snapshot := (snapshot s)\<lparr>LastEvent := summary\<rparr>\<rparr>"

text \<open>
  \<open>flushPending\<close> ranges over a Go map, whose iteration order is not fixed: \<open>order\<close> is the
  order the runtime chose. \<open>collectReady\<close> is the loop under the mutex, \<open>deliver\<close> the loop
  that reports and sends each ready event.
\<close>

fun collectReady ::
  "time \<Rightarrow> string list \<Rightarrow> (string \<rightharpoonup> Event) \<Rightarrow> Event list \<Rightarrow> (string \<rightharpoonup> Event) \<times> Event list" where
  "collectReady now [] pend ready = (pend, ready)"
| "collectReady now (path # rest) pend ready =
     (case pend path of
        None \<Rightarrow> collectReady now rest pend ready
      | Some evt \<Rightarrow>
          if When evt < now \<or> When evt = now
          then collectReady now rest (pend(path := None)) (ready @ [\<lparr>Path = path, Op = Op evt, When = now\<rparr>])
          else collectReady now rest pend ready)"

fun deliver :: "stdlib \<Rightarrow> Config \<Rightarrow> Event list \<Rightarrow> Watcher \<Rightarrow> Watcher" where
  "deliver L cfg [] w = w"
| "deliver L cfg (evt # rest) w =
     (let w1 = w\<lparr>status := SetLastEvent (formatEvent L evt (SyncRoot cfg)) (status w)\<rparr>
      in deliver L cfg rest
           (case try_send evt (out w1) of
              Some c \<Rightarrow> w1\<lparr>out := c\<rparr>
            | None \<Rightarrow> w1\<lparr>logger := logger w1 @ [(''fswatch event dropped'', Path evt)]\<rparr>))"

definition flushPending :: "stdlib \<Rightarrow> Config \<Rightarrow> time \<Rightarrow> string list \<Rightarrow> Watcher \<Rightarrow> Watcher" where
  "flushPending L cfg now order w =
     (case collectReady now order (pending w) [] of
        (pend, ready) \<Rightarrow> deliver L cfg ready (w\<lparr>pending := pend\<rparr>))"

text \<open>
  One iteration of the \<^verbatim>\<open>select\<close> loop of \<open>run\<close> is \<open>run_step\<close>, taken only once \<open>Start\<close> has
  launched the loop; an input comes with the state of the operating system and the clock
  at that moment. \<open>OutReceive\<close> is a consumer of \<open>Events()\<close> taking the oldest event.
\<close>

datatype input = CtxDone | FsEvent fsnotify_Event | FsEventsClosed | FsError error | FsErrorsClosed
  | Tick "string list" | OutReceive

definition run_step :: "stdlib \<Rightarrow> Config \<Rightarrow> os_env \<times> time \<times> input \<Rightarrow> Watcher \<Rightarrow> Watcher" where
  "run_step L cfg x w =
     (case x of (os, now, inp) \<Rightarrow>
        (case inp of
           OutReceive \<Rightarrow> (case try_recv (out w) of None \<Rightarrow> w | Some (e, c) \<Rightarrow> w\<lparr>out := c\<rparr>)
         | _ \<Rightarrow>
           if \<not> running w then w
           else (case inp of
                   CtxDone \<Rightarrow> w\<lparr>running := False\<rparr>
                 | FsEventsClosed \<Rightarrow> w\<lparr>running := False\<rparr>
                 | FsErrorsClosed \<Rightarrow> w\<lparr>running := False\<rparr>
                 | FsEvent evt \<Rightarrow> handleEvent L cfg os now evt w
                 | FsError err \<Rightarrow>
                     status_Update \<lparr>State = StateError, Message = ''fswatch error'', LastEvent = [],
                                    UpdatedAt = 0, RecentEvents = NilSlice\<rparr> now
                       (w\<lparr>logger := logger w @ [(''fswatch error'', [])]\<rparr>)
                 | Tick order \<Rightarrow> flushPending L cfg now order w
                 | OutReceive \<Rightarrow> w)))"

fun run :: "stdlib \<Rightarrow> Config \<Rightarrow> (os_env \<times> time \<times> input) list \<Rightarrow> Watcher \<Rightarrow> Watcher" where
  "run L cfg [] w = w"
| "run L cfg (x # xs) w = run L cfg xs (run_step L cfg x w)"

section \<open>Specification-side vocabulary\<close>

text \<open>
  The functions of this section do not occur in the source. They name what the
  specification talks about, so that the theorems below can be read against it.
\<close>

definition lastn :: "nat \<Rightarrow> 'a list \<Rightarrow> 'a list" where
  \<comment> \<open>the newest \<open>n\<close> elements of a list kept in arrival order\<close>
  "lastn n xs = drop (length xs - n) xs"

definition stamped :: "status_Event \<times> time \<times> time \<Rightarrow> status_Event" where
  \<comment> \<open>the event as \<open>AddEvent\<close> stores it: an unset \<open>When\<close> is replaced by the first clock reading\<close>
  "stamped x = (case x of (e, now1, now2) \<Rightarrow> if sWhen e = 0 then e\<lparr>sWhen := now1\<rparr> else e)"

definition summary :: "status_Event \<Rightarrow> string" where
  "summary e = sOp e @ '' '' @ sPath e"

fun AddEvents :: "(status_Event \<times> time \<times> time) list \<Rightarrow> runtime \<times> Store \<Rightarrow> (runtime \<times> Store) option" where
  "AddEvents [] rs = Some rs"
| "AddEvents (x # xs) rs =
     (case AddEvent (fst x) (fst (snd x)) (snd (snd x)) rs of
        None \<Rightarrow> None
      | Some rs' \<Rightarrow> AddEvents xs rs')"

definition fresh_in :: "runtime \<Rightarrow> slice \<Rightarrow> bool" where
  \<comment> \<open>the slice is nil or its backing array was not allocated yet in \<open>rt\<close>\<close>
  "fresh_in rt c = (case c of NilSlice \<Rightarrow> True | Slice a i n \<Rightarrow> length (arrays rt) \<le> a)"

definition slice_set :: "runtime \<Rightarrow> slice \<Rightarrow> nat \<Rightarrow> status_Event \<Rightarrow> runtime option" where
  \<comment> \<open>Go's \<open>c[j] = v\<close>; \<open>None\<close> is the index-out-of-range panic\<close>
  "slice_set rt c j v =
     (case c of
        NilSlice \<Rightarrow> None
      | Slice a i n \<Rightarrow>
          if j < n then Some (rt\<lparr>arrays := (arrays rt)[a := (arrays rt ! a)[i + j := v]]\<rparr>) else None)"

definition store_inv :: "runtime \<times> Store \<Rightarrow> bool" where
  "store_inv rs =
     (case rs of (rt, s) \<Rightarrow>
        valid rt (eventRing s) \<and> valid rt (RecentEvents (snapshot s)) \<and>
        elems rt (RecentEvents (snapshot s)) = elems rt (eventRing s) \<and>
        \<not> aliases (RecentEvents (snapshot s)) (eventRing s) \<and>
        0 < maxEvents s \<and> int (slice_len (eventRing s)) \<le> maxEvents s)"

type_synonym snapshot_view = "State \<times> string \<times> string \<times> time \<times> status_Event list"

definition view :: "runtime \<Rightarrow> Snapshot \<Rightarrow> snapshot_view" where
  "view rt snap = (State snap, Message snap, LastEvent snap, UpdatedAt snap, elems rt (RecentEvents snap))"

definition spec_update :: "snapshot_view \<Rightarrow> time \<Rightarrow> snapshot_view \<Rightarrow> snapshot_view" where
  \<comment> \<open>\<open>update(partial)\<close> as the specification words it: wholesale replacement, except that an
      unset update time is filled with the clock and an unset last-event summary or
      recent-events list is carried forward\<close>
  "spec_update partial now previous =
     (case (partial, previous) of
        ((st, msg, le, upd, re), (_, _, prev_le, _, prev_re)) \<Rightarrow>
          (st, msg, (if le = [] then prev_le else le), (if upd = 0 then now else upd),
           (if re = [] then prev_re else re)))"

section \<open>Example inputs\<close>

definition ex_rt :: runtime where
  "ex_rt = \<lparr>arrays = [], growth = (\<lambda>old need. 2 * old)\<rparr>"

definition ex_event :: "string \<Rightarrow> status_Event" where
  "ex_event p = \<lparr>sOp = ''WRITE'', sPath = p, sWhen = 5\<rparr>"

definition ex_rt1 :: runtime where
  "ex_rt1 = \<lparr>arrays = [[ex_event ''a.txt'']], growth = (\<lambda>old need. 2 * old)\<rparr>"

definition ex_partial :: Snapshot where
  "ex_partial = \<lparr>State = StateSyncing, Message = ''busy'', LastEvent = ''WRITE a.txt'', UpdatedAt = 5,
                 RecentEvents = Slice 0 0 1\<rparr>"

definition ex_five :: "(status_Event \<times> time \<times> time) list" where
  "ex_five = [(ex_event ''E1'', 1, 2), (ex_event ''E2'', 3, 4), (ex_event ''E3'', 5, 6),
              (ex_event ''E4'', 7, 8), ((ex_event ''E5'')\<lparr>sWhen := 0\<rparr>, 9, 10)]"

definition ex_rt3 :: runtime where
  "ex_rt3 = \<lparr>arrays = [[ex_event ''E1'', ex_event ''E2'', ex_event ''E3'']],
             growth = (\<lambda>old need. 2 * old)\<rparr>"

definition ex_store3 :: Store where
  "ex_store3 = (NewStore 0)\<lparr>eventRing := Slice 0 0 3\<rparr>"

definition ex_store1 :: Store where
  "ex_store1 = (NewStore 0)\<lparr>eventRing := Slice 0 0 1,
                 snapshot := (snapshot (NewStore 0))\<lparr>LastEvent := ''WRITE E1'',
                                                      RecentEvents := Slice 1 0 1\<rparr>\<rparr>"

definition ex_rt4 :: runtime where
  "ex_rt4 = \<lparr>arrays = [[ex_event ''E1''], [ex_event ''E1''], [ex_event ''zz'']],
             growth = (\<lambda>old need. 2 * old)\<rparr>"

definition ex_partial2 :: Snapshot where
  "ex_partial2 = \<lparr>State = StateSyncing, Message = ''busy'', LastEvent = ''WRITE a.txt'', UpdatedAt = 5,
                  RecentEvents = Slice 2 0 1\<rparr>"

definition ex_partial_unset :: Snapshot where
  "ex_partial_unset = \<lparr>State = StateSyncing, Message = ''busy'', LastEvent = [], UpdatedAt = 0,
                       RecentEvents = NilSlice\<rparr>"


fun queue_run :: "queue_op list \<Rightarrow> Queue \<Rightarrow> Queue" where
  "queue_run [] q = q"
| "queue_run (x # xs) q = queue_run xs (queue_step x q)"

fun Enqueues :: "Event list \<Rightarrow> Queue \<Rightarrow> Queue" where
  "Enqueues [] q = q"
| "Enqueues (e # es) q = Enqueues es (Enqueue e q)"

definition ex_fs_event :: "string \<Rightarrow> Event" where
  "ex_fs_event p = \<lparr>Path = p, Op = OpWrite, When = 7\<rparr>"

section \<open>Specification-side vocabulary for the watcher\<close>

definition spec_normalizeOp :: "32 word \<Rightarrow> Op" where
  \<comment> \<open>normalization as the specification words it: the set bit of highest merge priority wins\<close>
  "spec_normalizeOp op =
     (if op AND fsnotify_Remove = fsnotify_Remove then OpRemove
      else if op AND fsnotify_Rename = fsnotify_Rename then OpRename
      else if op AND fsnotify_Create = fsnotify_Create then OpCreate
      else if op AND fsnotify_Write = fsnotify_Write then OpWrite
      else if op AND fsnotify_Chmod = fsnotify_Chmod then OpChmod
      else OpUnknown)"

fun op_bit :: "Op \<Rightarrow> 32 word" where
  "op_bit OpCreate = fsnotify_Create"
| "op_bit OpWrite = fsnotify_Write"
| "op_bit OpRemove = fsnotify_Remove"
| "op_bit OpRename = fsnotify_Rename"
| "op_bit OpChmod = fsnotify_Chmod"
| "op_bit OpUnknown = 0"

definition has_bit :: "32 word \<Rightarrow> Op \<Rightarrow> bool" where
  "has_bit m x = (m AND op_bit x = op_bit x)"

definition ignore_inv :: "stdlib \<Rightarrow> Config \<Rightarrow> Watcher \<Rightarrow> bool" where
  \<comment> \<open>what the watcher holds, pending or sent, is about paths the ignore policy lets through\<close>
  "ignore_inv L cfg w =
     ((\<forall>p e. pending w p = Some e \<longrightarrow> \<not> shouldIgnore L cfg p \<and> Path e = p) \<and>
      (\<forall>e \<in> set (ch_buf (out w)). \<not> shouldIgnore L cfg (Path e)))"

definition ex_lib :: stdlib where
  "ex_lib = \<lparr>filepath_Match = (\<lambda>pat name. pat = ''*.tmp'' \<and> hasSuffix name ''.tmp''),
             filepath_Rel = (\<lambda>root p. if take (length root + 1) p = root @ ''/''
                                        then Some (drop (length root + 1) p) else None),
             filepath_Join = (\<lambda>dir name. dir @ ''/'' @ name)\<rparr>"

definition ex_cfg :: Config where
  "ex_cfg = \<lparr>SyncRoot = ''/sync'', IgnorePatterns = [''*.tmp''], EventLogSize = 20,
             SyncQueueSize = 1024, DatabasePath = ''/data/googlysync.db'',
             LogFilePath = ''/data/logs/daemon.jsonl'', SocketPath = ''/run/daemon.sock''\<rparr>"

definition ex_os :: os_env where
  "ex_os = \<lparr>os_MkdirAll = (\<lambda>p. if p = [] then Some (Err ''mkdir : no such file or directory'') else None),
            os_Lstat = (\<lambda>p. if p = ''/sync''
                             then Inr (Dir None [(''a.txt'', File), (''cache.tmp'', Dir None [(''x'', Dir None [])]),
                                                 (''docs'', Dir None [])])
                             else Inl (Err ''lstat: no such file or directory'')),
            os_Stat_IsDir = (\<lambda>p. False),
            fsnotify_Add = (\<lambda>p. None)\<rparr>"

definition ex_watcher :: Watcher where
  "ex_watcher = \<lparr>watcher = [], out = make_chan 256, pending = Map.empty,
               debounce = 300 * 1000000, status = NewStore 0, heap = ex_rt,
               logger = [], running = False, mkdir_calls = []\<rparr>"

definition ms :: "int \<Rightarrow> time" where "ms n = n * 1000000"

definition ring_events :: "Watcher \<Rightarrow> status_Event list" where
  "ring_events w = elems (heap w) (eventRing (status w))"

definition recent_events :: "Watcher \<Rightarrow> status_Event list" where
  "recent_events w = elems (heap w) (RecentEvents (snapshot (status w)))"

definition watch_inv :: "stdlib \<Rightarrow> Config \<Rightarrow> Watcher \<Rightarrow> bool" where
  "watch_inv L cfg w = (ignore_inv L cfg w \<and> store_inv (heap w, status w))"

definition ex_run :: "(os_env \<times> time \<times> input) list" where
  "ex_run = [(ex_os, ms 0, FsEvent \<lparr>Name = ''/sync/tmp.swp'', fsOp = fsnotify_Create\<rparr>),
             (ex_os, ms 5, FsEvent \<lparr>Name = ''/sync/a.txt'', fsOp = fsnotify_Create\<rparr>),
             (ex_os, ms 10, FsEvent \<lparr>Name = ''/sync/tmp.swp'', fsOp = fsnotify_Write\<rparr>),
             (ex_os, ms 400, Tick [''/sync/tmp.swp'', ''/sync/a.txt''])]"

definition ex_os_readonly :: os_env where
  "ex_os_readonly = ex_os\<lparr>os_MkdirAll := (\<lambda>p. Some (Err ''mkdir: permission denied''))\<rparr>"

definition ex_os_unreadable :: os_env where
  "ex_os_unreadable = ex_os\<lparr>os_Lstat := (\<lambda>p. Inl (Err ''lstat: permission denied''))\<rparr>"

definition ex_close_fails :: "string list \<Rightarrow> error option \<times> string list" where
  "ex_close_fails ws = (Some (Err ''close: bad file descriptor''), [])"

section \<open>Go slices: the effect of each primitive\<close>

lemma length_elems: "valid rt s \<Longrightarrow> length (elems rt s) = slice_len s"
  by (auto simp: valid_def elems_def slice_len_def split: slice.splits)

lemma alloc_arrays:
  "alloc rt xs c = (rt', a) \<Longrightarrow>
     a = length (arrays rt) \<and> length (arrays rt') = Suc (length (arrays rt)) \<and>
     growth rt' = growth rt \<and>
     arrays rt' ! a = xs @ replicate (c - length xs) zeroEvent \<and>
     (\<forall>b < length (arrays rt). arrays rt' ! b = arrays rt ! b)"
  by (auto simp: alloc_def nth_append)

lemma alloc_keeps:
  assumes "alloc rt xs c = (rt', a)" "valid rt t"
  shows "valid rt' t \<and> elems rt' t = elems rt t"
  using assms by (auto simp: alloc_def valid_def elems_def nth_append split: slice.splits)

lemma go_clone_spec:
  assumes "go_clone rt s = (rt', c)" "valid rt s"
  shows "valid rt' c \<and> elems rt' c = elems rt s \<and> growth rt' = growth rt \<and>
         (c = NilSlice \<or> (\<exists>n. c = Slice (length (arrays rt)) 0 n)) \<and>
         length (arrays rt) \<le> length (arrays rt') \<and>
         (\<forall>b < length (arrays rt). arrays rt' ! b = arrays rt ! b)"
  using assms
  by (auto simp: go_clone_def alloc_def valid_def elems_def slice_len_def newcap_def nth_append
      split: slice.splits if_splits)

lemma go_clone_keeps:
  assumes "go_clone rt s = (rt', c)" "valid rt t"
  shows "valid rt' t \<and> elems rt' t = elems rt t \<and> \<not> aliases c t \<and> \<not> aliases t c"
  using assms
  by (auto simp: go_clone_def alloc_def valid_def elems_def slice_len_def newcap_def nth_append aliases_def
      split: slice.splits if_splits)

lemma alloc_new:
  assumes "alloc rt xs c = (rt', a)"
  shows "valid rt' (Slice a 0 (length xs)) \<and> elems rt' (Slice a 0 (length xs)) = xs"
  using assms by (auto simp: alloc_def valid_def elems_def)

lemma take_drop_update:
  "i + n < length arr \<Longrightarrow> take (Suc n) (drop i (arr[i + n := e])) = take n (drop i arr) @ [e]"
  by (simp add: take_Suc_conv_app_nth drop_update_swap)

lemma go_append_spec:
  assumes "go_append rt s e = (rt', s')" "valid rt s"
  shows "valid rt' s' \<and> elems rt' s' = elems rt s @ [e] \<and> slice_len s' = Suc (slice_len s) \<and>
         growth rt' = growth rt \<and> length (arrays rt) \<le> length (arrays rt')"
proof (cases s)
  case NilSlice
  obtain rt1 a1 where al: "alloc rt [e] (newcap rt 0 1) = (rt1, a1)" by force
  from alloc_new[OF al] alloc_arrays[OF al] assms NilSlice al show ?thesis
    by (auto simp: go_append_def elems_def slice_len_def)
next
  case (Slice a i n)
  show ?thesis
  proof (cases "n < slice_cap rt s")
    case True
    with assms Slice show ?thesis
      by (auto simp: go_append_def valid_def elems_def slice_len_def slice_cap_def take_drop_update)
  next
    case False
    obtain rt1 a1 where al: "alloc rt (elems rt s @ [e]) (newcap rt (slice_cap rt s) (n + 1)) = (rt1, a1)"
      by force
    have len: "length (elems rt s) = n" using length_elems[OF assms(2)] Slice by (simp add: slice_len_def)
    from alloc_new[OF al] alloc_arrays[OF al] assms Slice al False len show ?thesis
      by (auto simp: go_append_def slice_len_def)
  qed
qed

lemma go_slice_from_spec:
  assumes "go_slice_from s lo = Some s'" "valid rt s"
  shows "valid rt s' \<and> elems rt s' = drop (nat lo) (elems rt s) \<and> slice_len s' = slice_len s - nat lo
         \<and> (s' = s \<or> aliases s' s)"
  using assms
  by (cases s) (auto simp: go_slice_from_def valid_def elems_def slice_len_def drop_take add.commute aliases_def
      split: if_splits)

lemma trim_spec:
  assumes "valid rt r" "0 \<le> m"
  shows "\<exists>r'. trim r m = Some r' \<and> valid rt r' \<and> elems rt r' = lastn (nat m) (elems rt r)
          \<and> (r' = r \<or> aliases r' r)"
proof (cases "int (slice_len r) > m")
  case False
  with assms show ?thesis by (simp add: trim_def lastn_def length_elems)
next
  case True
  then have "0 \<le> int (slice_len r) - m \<and> int (slice_len r) - m \<le> int (slice_len r)"
    using assms by simp
  then obtain r' where r': "go_slice_from r (int (slice_len r) - m) = Some r'"
    by (auto simp: go_slice_from_def)
  have "nat (int (slice_len r) - m) = slice_len r - nat m" using assms by simp
  with go_slice_from_spec[OF r' assms(1)] True r' show ?thesis
    by (simp add: trim_def lastn_def length_elems[OF assms(1)])
qed

lemma go_clone_fresh:
  assumes "go_clone rt s = (rt', c)"
  shows "fresh_in rt c"
  using assms by (auto simp: go_clone_def alloc_def fresh_in_def split: if_splits)

lemma fresh_not_aliases: "fresh_in rt c \<Longrightarrow> valid rt t \<Longrightarrow> \<not> aliases c t"
  by (auto simp: fresh_in_def valid_def aliases_def split: slice.splits)

lemma fresh_mono: "fresh_in rt' c \<Longrightarrow> length (arrays rt) \<le> length (arrays rt') \<Longrightarrow> fresh_in rt c"
  by (auto simp: fresh_in_def split: slice.splits)

lemma AddEvent_spec:
  assumes v: "valid rt (eventRing s)" and m: "0 \<le> maxEvents s"
  shows "\<exists>rt' s'. AddEvent e now1 now2 (rt, s) = Some (rt', s') \<and>
           valid rt' (eventRing s') \<and>
           elems rt' (eventRing s') = lastn (nat (maxEvents s)) (elems rt (eventRing s) @ [stamped (e, now1, now2)]) \<and>
           maxEvents s' = maxEvents s \<and>
           valid rt' (RecentEvents (snapshot s')) \<and>
           elems rt' (RecentEvents (snapshot s')) = elems rt' (eventRing s') \<and>
           \<not> aliases (RecentEvents (snapshot s')) (eventRing s') \<and>
           fresh_in rt (RecentEvents (snapshot s')) \<and>
           LastEvent (snapshot s') = summary (stamped (e, now1, now2)) \<and>
           UpdatedAt (snapshot s') = now2 \<and>
           State (snapshot s') = State (snapshot s) \<and>
           Message (snapshot s') = Message (snapshot s)"
proof -
  define e1 where "e1 = stamped (e, now1, now2)"
  obtain rt1 r1 where ap: "go_append rt (eventRing s) e1 = (rt1, r1)" by force
  note A = go_append_spec[OF ap v]
  from A have v1: "valid rt1 r1" by simp
  from trim_spec[OF v1 m] obtain r2 where
    tr: "trim r1 (maxEvents s) = Some r2" and v2: "valid rt1 r2"
    and el2: "elems rt1 r2 = lastn (nat (maxEvents s)) (elems rt1 r1)" by blast
  obtain rt2 c where cl: "go_clone rt1 r2 = (rt2, c)" by force
  note C = go_clone_spec[OF cl v2]
  note K = go_clone_keeps[OF cl v2]
  have fr: "fresh_in rt c" using go_clone_fresh[OF cl] A by (auto intro: fresh_mono)
  have "AddEvent e now1 now2 (rt, s) =
      Some (rt2, s\<lparr>eventRing := r2,
                    snapshot := (snapshot s)\<lparr>LastEvent := sOp e1 @ '' '' @ sPath e1,
                                              UpdatedAt := now2, RecentEvents := c\<rparr>\<rparr>)"
    using ap tr cl by (simp add: AddEvent_def e1_def stamped_def IsZero_def Let_def)
  with A C K el2 fr show ?thesis by (simp add: e1_def summary_def)
qed

lemma lastn_lastn_append: "lastn n (lastn n ys @ zs) = lastn n (ys @ zs)"
proof (cases "length ys \<le> n")
  case True
  then show ?thesis by (simp add: lastn_def)
next
  case False
  then have k: "length ys - (length ys - n) = n" "n < length ys" by simp_all
  have "lastn n (lastn n ys @ zs) = drop (length zs) (drop (length ys - n) ys @ zs)"
    using k by (simp add: lastn_def)
  also have "\<dots> = drop (length zs + (length ys - n)) (ys @ zs)"
    by (simp only: drop_drop[symmetric] drop_append) simp
  also have "\<dots> = lastn n (ys @ zs)"
    using k by (simp add: lastn_def add.commute)
  finally show ?thesis .
qed

lemma lastn_short: "length xs \<le> n \<Longrightarrow> lastn n xs = xs"
  by (simp add: lastn_def)

lemma length_lastn: "length (lastn n xs) = min (length xs) n"
  by (simp add: lastn_def)

lemma AddEvents_spec:
  assumes "valid rt (eventRing s)" "0 \<le> maxEvents s" "int (slice_len (eventRing s)) \<le> maxEvents s"
  shows "\<exists>rt' s'. AddEvents xs (rt, s) = Some (rt', s') \<and>
           valid rt' (eventRing s') \<and> maxEvents s' = maxEvents s \<and>
           elems rt' (eventRing s') = lastn (nat (maxEvents s)) (elems rt (eventRing s) @ map stamped xs) \<and>
           (xs \<noteq> [] \<longrightarrow>
              elems rt' (RecentEvents (snapshot s')) = elems rt' (eventRing s') \<and>
              LastEvent (snapshot s') = summary (stamped (last xs)) \<and>
              UpdatedAt (snapshot s') = snd (snd (last xs)))"
  using assms
proof (induction xs arbitrary: rt s)
  case Nil
  then show ?case by (simp add: lastn_short length_elems)
next
  case (Cons x xs)
  obtain e n1 n2 where x: "x = (e, n1, n2)" by (cases x) auto
  from AddEvent_spec[OF Cons.prems(1,2), of e n1 n2] obtain rt1 s1 where
    st: "AddEvent e n1 n2 (rt, s) = Some (rt1, s1)" and v1: "valid rt1 (eventRing s1)"
    and el: "elems rt1 (eventRing s1) = lastn (nat (maxEvents s)) (elems rt (eventRing s) @ [stamped (e, n1, n2)])"
    and m1: "maxEvents s1 = maxEvents s"
    and rec: "elems rt1 (RecentEvents (snapshot s1)) = elems rt1 (eventRing s1)"
    and le: "LastEvent (snapshot s1) = summary (stamped (e, n1, n2))"
    and up: "UpdatedAt (snapshot s1) = n2" by blast
  from Cons.prems m1 have m1': "0 \<le> maxEvents s1" by simp
  have "length (elems rt1 (eventRing s1)) \<le> nat (maxEvents s)" by (simp add: el length_lastn)
  then have l1: "int (slice_len (eventRing s1)) \<le> maxEvents s1"
    using length_elems[OF v1] m1 m1' by simp
  from Cons.IH[OF v1 m1' l1] obtain rt' s' where
    R: "AddEvents xs (rt1, s1) = Some (rt', s')" "valid rt' (eventRing s')" "maxEvents s' = maxEvents s1"
      "elems rt' (eventRing s') = lastn (nat (maxEvents s1)) (elems rt1 (eventRing s1) @ map stamped xs)"
      "xs \<noteq> [] \<longrightarrow>
              elems rt' (RecentEvents (snapshot s')) = elems rt' (eventRing s') \<and>
              LastEvent (snapshot s') = summary (stamped (last xs)) \<and>
              UpdatedAt (snapshot s') = snd (snd (last xs))" by blast
  show ?case
  proof (cases "xs = []")
    case True
    with st R x el m1 rec le up show ?thesis by simp
  next
    case False
    with st R x el m1 show ?thesis by (simp add: lastn_lastn_append)
  qed
qed

section \<open>The status store\<close>

lemma slice_set_other:
  assumes "slice_set rt c j v = Some rt'" "\<not> aliases c t"
  shows "elems rt' t = elems rt t \<and> (valid rt t \<longrightarrow> valid rt' t)"
  using assms
  by (cases c; cases t) (auto simp: slice_set_def aliases_def elems_def valid_def nth_list_update split: if_splits)

lemma SetMaxEvents_noop: "mx \<le> 0 \<Longrightarrow> SetMaxEvents mx rs = Some rs"
  by (cases rs) (simp add: SetMaxEvents_def)

lemma SetMaxEvents_spec:
  assumes v: "valid rt (eventRing s)" and m: "0 < mx"
  shows "\<exists>rt' s'. SetMaxEvents mx (rt, s) = Some (rt', s') \<and>
           maxEvents s' = mx \<and>
           valid rt' (eventRing s') \<and>
           elems rt' (eventRing s') = lastn (nat mx) (elems rt (eventRing s)) \<and>
           valid rt' (RecentEvents (snapshot s')) \<and>
           elems rt' (RecentEvents (snapshot s')) = elems rt' (eventRing s') \<and>
           \<not> aliases (RecentEvents (snapshot s')) (eventRing s') \<and>
           fresh_in rt (RecentEvents (snapshot s')) \<and>
           (snapshot s')\<lparr>RecentEvents := NilSlice\<rparr> = (snapshot s)\<lparr>RecentEvents := NilSlice\<rparr>"
proof -
  from m have m0: "0 \<le> mx" by simp
  from trim_spec[OF v m0] obtain r where
    tr: "trim (eventRing s) mx = Some r" and vr: "valid rt r"
    and el: "elems rt r = lastn (nat mx) (elems rt (eventRing s))" by blast
  obtain rt1 c where cl: "go_clone rt r = (rt1, c)" by force
  note C = go_clone_spec[OF cl vr]
  note K = go_clone_keeps[OF cl vr]
  have "SetMaxEvents mx (rt, s) =
      Some (rt1, s\<lparr>maxEvents := mx, eventRing := r, snapshot := (snapshot s)\<lparr>RecentEvents := c\<rparr>\<rparr>)"
    using m tr cl by (simp add: SetMaxEvents_def)
  with C K el go_clone_fresh[OF cl] show ?thesis by simp
qed

lemma Update_spec:
  assumes v: "valid rt (eventRing s)" and u: "Update p now (rt, s) = (rt', s')"
  shows "State (snapshot s') = State p \<and> Message (snapshot s') = Message p \<and>
         UpdatedAt (snapshot s') = (if UpdatedAt p = 0 then now else UpdatedAt p) \<and>
         LastEvent (snapshot s') = (if LastEvent p = [] then LastEvent (snapshot s) else LastEvent p) \<and>
         elems rt' (RecentEvents (snapshot s')) = elems rt (eventRing s) \<and>
         valid rt' (RecentEvents (snapshot s')) \<and>
         fresh_in rt (RecentEvents (snapshot s')) \<and>
         \<not> aliases (RecentEvents (snapshot s')) (eventRing s') \<and>
         eventRing s' = eventRing s \<and> maxEvents s' = maxEvents s \<and>
         valid rt' (eventRing s') \<and> elems rt' (eventRing s') = elems rt (eventRing s)"
proof -
  obtain rt1 c where cl: "go_clone rt (eventRing s) = (rt1, c)" by force
  note C = go_clone_spec[OF cl v]
  note K = go_clone_keeps[OF cl v]
  from u cl have "rt' = rt1" and
    "s' = s\<lparr>snapshot := (let snap1 = (if IsZero (UpdatedAt p) then p\<lparr>UpdatedAt := now\<rparr> else p);
            snap2 = (if LastEvent snap1 = [] then snap1\<lparr>LastEvent := LastEvent (snapshot s)\<rparr> else snap1)
        in snap2\<lparr>RecentEvents := c\<rparr>)\<rparr>"
    by (auto simp: Update_def Let_def)
  with C K go_clone_fresh[OF cl] show ?thesis by (simp add: Let_def IsZero_def)
qed

lemma Current_spec:
  assumes v: "valid rt (eventRing s)" and u: "Current (rt, s) = (rt', snap)"
  shows "elems rt' (RecentEvents snap) = elems rt (eventRing s) \<and>
         valid rt' (RecentEvents snap) \<and>
         fresh_in rt (RecentEvents snap) \<and>
         \<not> aliases (RecentEvents snap) (eventRing s) \<and>
         snap\<lparr>RecentEvents := NilSlice\<rparr> = (snapshot s)\<lparr>RecentEvents := NilSlice\<rparr> \<and>
         valid rt' (eventRing s) \<and> elems rt' (eventRing s) = elems rt (eventRing s) \<and>
         (\<forall>t. valid rt t \<longrightarrow> valid rt' t \<and> elems rt' t = elems rt t)"
proof -
  obtain rt1 c where cl: "go_clone rt (eventRing s) = (rt1, c)" by force
  note C = go_clone_spec[OF cl v]
  note K = go_clone_keeps[OF cl]
  from u cl have "rt' = rt1" "snap = (snapshot s)\<lparr>RecentEvents := c\<rparr>"
    by (auto simp: Current_def)
  with C K v go_clone_fresh[OF cl] show ?thesis by simp
qed

lemma store_inv_NewStore: "store_inv (rt, NewStore now)"
  by (simp add: store_inv_def NewStore_def valid_def elems_def aliases_def slice_len_def)

lemma store_inv_Update: "store_inv rs \<Longrightarrow> store_inv (Update p now rs)"
proof -
  assume a: "store_inv rs"
  obtain rt s where rs: "rs = (rt, s)" by (cases rs)
  obtain rt' s' where u: "Update p now (rt, s) = (rt', s')" by force
  from a rs have v: "valid rt (eventRing s)" by (simp add: store_inv_def)
  from Update_spec[OF v u] a rs u show ?thesis by (auto simp: store_inv_def)
qed

lemma store_inv_AddEvent:
  assumes "store_inv rs"
  shows "\<exists>rs'. AddEvent e now1 now2 rs = Some rs' \<and> store_inv rs'"
proof -
  obtain rt s where rs: "rs = (rt, s)" by (cases rs)
  from assms rs have v: "valid rt (eventRing s)" and m: "0 \<le> maxEvents s" by (simp_all add: store_inv_def)
  from AddEvent_spec[OF v m, of e now1 now2] obtain rt' s' where
    A: "AddEvent e now1 now2 (rt, s) = Some (rt', s')" "valid rt' (eventRing s')"
       "elems rt' (eventRing s') = lastn (nat (maxEvents s)) (elems rt (eventRing s) @ [stamped (e, now1, now2)])"
       "maxEvents s' = maxEvents s" "valid rt' (RecentEvents (snapshot s'))"
       "elems rt' (RecentEvents (snapshot s')) = elems rt' (eventRing s')"
       "\<not> aliases (RecentEvents (snapshot s')) (eventRing s')" by blast
  have "length (elems rt' (eventRing s')) \<le> nat (maxEvents s)" by (simp add: A(3) length_lastn)
  then have "int (slice_len (eventRing s')) \<le> maxEvents s'"
    using length_elems[OF A(2)] A(4) m by simp
  with A assms rs show ?thesis by (simp add: store_inv_def)
qed

lemma store_inv_SetMaxEvents:
  assumes "store_inv rs"
  shows "\<exists>rs'. SetMaxEvents mx rs = Some rs' \<and> store_inv rs'"
proof (cases "mx \<le> 0")
  case True
  with assms show ?thesis by (simp add: SetMaxEvents_noop)
next
  case False
  then have m: "0 < mx" by simp
  obtain rt s where rs: "rs = (rt, s)" by (cases rs)
  from assms rs have v: "valid rt (eventRing s)" by (simp add: store_inv_def)
  from SetMaxEvents_spec[OF v m] obtain rt' s' where
    A: "SetMaxEvents mx (rt, s) = Some (rt', s')" "maxEvents s' = mx" "valid rt' (eventRing s')"
       "elems rt' (eventRing s') = lastn (nat mx) (elems rt (eventRing s))"
       "valid rt' (RecentEvents (snapshot s'))"
       "elems rt' (RecentEvents (snapshot s')) = elems rt' (eventRing s')"
       "\<not> aliases (RecentEvents (snapshot s')) (eventRing s')" by blast
  have "length (elems rt' (eventRing s')) \<le> nat mx" by (simp add: A(4) length_lastn)
  then have "int (slice_len (eventRing s')) \<le> maxEvents s'"
    using length_elems[OF A(3)] A(2) m by simp
  with A m rs show ?thesis by (simp add: store_inv_def)
qed

lemma store_inv_Current:
  assumes "store_inv rs" "Current rs = (rt', snap)"
  shows "store_inv (rt', snd rs)"
proof -
  obtain rt s where rs: "rs = (rt, s)" by (cases rs)
  from assms rs have v: "valid rt (eventRing s)" and v2: "valid rt (RecentEvents (snapshot s))"
    by (simp_all add: store_inv_def)
  from assms rs have u: "Current (rt, s) = (rt', snap)" by simp
  from Current_spec[OF v u] v2 assms(1) rs show ?thesis by (simp add: store_inv_def)
qed

subsection \<open>C5: the recent-event ring\<close>

text \<open>
  Claim C5. After \<open>N\<close> calls of \<open>AddEvent\<close> on a store whose maximum ring size is \<open>M\<close>, the
  ring holds the newest \<open>M\<close> events (as stored, an unset \<open>When\<close> stamped with the clock) in
  arrival order, oldest evicted first; started from an empty ring its length is
  \<open>min N M\<close>. No call panics, the snapshot's recent events equal the ring, and after every
  call the last-event summary is \<open>Op\<close>, a blank and \<open>Path\<close> of the event just added and the
  update time is the clock reading of that call.
\<close>

theorem AddEvent_ring:
  assumes "store_inv (rt, s)"
  shows "\<exists>rt' s'. AddEvents xs (rt, s) = Some (rt', s') \<and> store_inv (rt', s') \<and>
           maxEvents s' = maxEvents s \<and>
           elems rt' (eventRing s') = lastn (nat (maxEvents s)) (elems rt (eventRing s) @ map stamped xs) \<and>
           elems rt' (RecentEvents (snapshot s')) = elems rt' (eventRing s') \<and>
           (elems rt (eventRing s) = [] \<longrightarrow>
              length (elems rt' (eventRing s')) = min (length xs) (nat (maxEvents s))) \<and>
           (xs \<noteq> [] \<longrightarrow>
              LastEvent (snapshot s') = summary (stamped (last xs)) \<and>
              UpdatedAt (snapshot s') = snd (snd (last xs)))"
proof -
  have inv_steps: "\<exists>rs'. AddEvents ys rs = Some rs' \<and> store_inv rs'" if "store_inv rs" for ys rs
    using that
  proof (induction ys arbitrary: rs)
    case Nil
    then show ?case by simp
  next
    case (Cons y ys)
    from store_inv_AddEvent[OF Cons.prems] obtain rs1 where
      "AddEvent (fst y) (fst (snd y)) (snd (snd y)) rs = Some rs1" "store_inv rs1" by blast
    with Cons.IH[of rs1] show ?case by simp
  qed
  from assms have v: "valid rt (eventRing s)" and m: "0 \<le> maxEvents s"
    and l: "int (slice_len (eventRing s)) \<le> maxEvents s"
    by (simp_all add: store_inv_def)
  from AddEvents_spec[OF v m l, of xs] obtain rt' s' where
    R: "AddEvents xs (rt, s) = Some (rt', s')" "maxEvents s' = maxEvents s"
       "elems rt' (eventRing s') = lastn (nat (maxEvents s)) (elems rt (eventRing s) @ map stamped xs)"
       "xs \<noteq> [] \<longrightarrow>
              elems rt' (RecentEvents (snapshot s')) = elems rt' (eventRing s') \<and>
              LastEvent (snapshot s') = summary (stamped (last xs)) \<and>
              UpdatedAt (snapshot s') = snd (snd (last xs))" by blast
  from inv_steps[OF assms, of xs] R(1) have inv': "store_inv (rt', s')" by simp
  then have "elems rt' (RecentEvents (snapshot s')) = elems rt' (eventRing s')"
    by (simp add: store_inv_def)
  with R inv' show ?thesis by (simp add: length_lastn)
qed

theorem AddEvent_ring_witness:
  "store_inv (ex_rt, (NewStore 0)\<lparr>maxEvents := 3\<rparr>) \<and>
   (\<exists>rt' s'. AddEvents ex_five (ex_rt, (NewStore 0)\<lparr>maxEvents := 3\<rparr>) = Some (rt', s') \<and>
      elems rt' (eventRing s') = [ex_event ''E3'', ex_event ''E4'', (ex_event ''E5'')\<lparr>sWhen := 9\<rparr>] \<and>
      elems rt' (RecentEvents (snapshot s')) = [ex_event ''E3'', ex_event ''E4'', (ex_event ''E5'')\<lparr>sWhen := 9\<rparr>] \<and>
      length (elems rt' (eventRing s')) = 3 \<and>
      LastEvent (snapshot s') = ''WRITE E5'' \<and> UpdatedAt (snapshot s') = 10)"
proof -
  let ?s = "(NewStore 0)\<lparr>maxEvents := 3\<rparr>"
  have inv: "store_inv (ex_rt, ?s)"
    by (simp add: store_inv_def NewStore_def valid_def elems_def aliases_def slice_len_def)
  have e: "elems ex_rt (eventRing ?s) = []"
    by (simp add: NewStore_def elems_def)
  have ne: "ex_five \<noteq> []" by (simp add: ex_five_def)
  from AddEvent_ring[OF inv, of ex_five] obtain rt' s' where
    R: "AddEvents ex_five (ex_rt, ?s) = Some (rt', s')"
       "elems rt' (eventRing s') = lastn (nat (maxEvents ?s)) (elems ex_rt (eventRing ?s) @ map stamped ex_five)"
       "elems rt' (RecentEvents (snapshot s')) = elems rt' (eventRing s')"
       "elems ex_rt (eventRing ?s) = [] \<longrightarrow>
          length (elems rt' (eventRing s')) = min (length ex_five) (nat (maxEvents ?s))"
       "ex_five \<noteq> [] \<longrightarrow> LastEvent (snapshot s') = summary (stamped (last ex_five)) \<and>
          UpdatedAt (snapshot s') = snd (snd (last ex_five))"
    by blast
  have ring: "elems rt' (eventRing s') = [ex_event ''E3'', ex_event ''E4'', (ex_event ''E5'')\<lparr>sWhen := 9\<rparr>]"
    using R(2) e by (simp add: lastn_def stamped_def ex_five_def ex_event_def)
  have len: "length (elems rt' (eventRing s')) = 3"
    using ring by simp
  have le: "LastEvent (snapshot s') = ''WRITE E5'' \<and> UpdatedAt (snapshot s') = 10"
    using R(5) ne by (simp add: ex_five_def stamped_def summary_def ex_event_def)
  from inv R(1) R(3) ring len le show ?thesis by simp
qed

subsection \<open>C6: resizing the ring\<close>

text \<open>
  Claim C6. \<open>SetMaxEvents n\<close> with \<open>n \<le> 0\<close> leaves the store (and the heap) as it is. With
  \<open>0 < n\<close> it never panics, sets the maximum to \<open>n\<close> and keeps the newest \<open>n\<close> events: a ring
  no longer than \<open>n\<close> is unchanged, a longer one is cut from the oldest end to length \<open>n\<close>.
\<close>

theorem SetMaxEvents_resize:
  "(mx \<le> 0 \<longrightarrow> SetMaxEvents mx (rt, s) = Some (rt, s)) \<and>
   (0 < mx \<and> valid rt (eventRing s) \<longrightarrow>
      (\<exists>rt' s'. SetMaxEvents mx (rt, s) = Some (rt', s') \<and>
         maxEvents s' = mx \<and>
         elems rt' (eventRing s') = lastn (nat mx) (elems rt (eventRing s)) \<and>
         elems rt' (RecentEvents (snapshot s')) = elems rt' (eventRing s') \<and>
         (int (length (elems rt (eventRing s))) \<le> mx \<longrightarrow>
            elems rt' (eventRing s') = elems rt (eventRing s)) \<and>
         (int (length (elems rt (eventRing s))) > mx \<longrightarrow>
            int (length (elems rt' (eventRing s'))) = mx)))"
proof (intro conjI impI)
  assume "mx \<le> 0"
  then show "SetMaxEvents mx (rt, s) = Some (rt, s)" by (rule SetMaxEvents_noop)
next
  assume a: "0 < mx \<and> valid rt (eventRing s)"
  then have m: "0 < mx" and v: "valid rt (eventRing s)" by simp_all
  from SetMaxEvents_spec[OF v m] obtain rt' s' where
    A: "SetMaxEvents mx (rt, s) = Some (rt', s')" "maxEvents s' = mx"
       "elems rt' (eventRing s') = lastn (nat mx) (elems rt (eventRing s))"
       "elems rt' (RecentEvents (snapshot s')) = elems rt' (eventRing s')" by blast
  have "int (length (elems rt (eventRing s))) \<le> mx \<Longrightarrow> lastn (nat mx) (elems rt (eventRing s)) = elems rt (eventRing s)"
    by (rule lastn_short) simp
  moreover have "int (length (elems rt (eventRing s))) > mx \<Longrightarrow>
      int (length (lastn (nat mx) (elems rt (eventRing s)))) = mx"
    using m by (simp add: length_lastn)
  ultimately show "\<exists>rt' s'. SetMaxEvents mx (rt, s) = Some (rt', s') \<and>
         maxEvents s' = mx \<and>
         elems rt' (eventRing s') = lastn (nat mx) (elems rt (eventRing s)) \<and>
         elems rt' (RecentEvents (snapshot s')) = elems rt' (eventRing s') \<and>
         (int (length (elems rt (eventRing s))) \<le> mx \<longrightarrow>
            elems rt' (eventRing s') = elems rt (eventRing s)) \<and>
         (int (length (elems rt (eventRing s))) > mx \<longrightarrow>
            int (length (elems rt' (eventRing s'))) = mx)"
    using A by auto
qed

theorem SetMaxEvents_resize_witness:
  "SetMaxEvents 0 (ex_rt3, ex_store3) = Some (ex_rt3, ex_store3) \<and>
   (\<exists>rt' s'. SetMaxEvents 2 (ex_rt3, ex_store3) = Some (rt', s') \<and> maxEvents s' = 2 \<and>
      elems rt' (eventRing s') = [ex_event ''E2'', ex_event ''E3''] \<and>
      elems rt' (RecentEvents (snapshot s')) = [ex_event ''E2'', ex_event ''E3''])"
proof -
  have v: "valid ex_rt3 (eventRing ex_store3)"
    by (simp add: valid_def ex_rt3_def ex_store3_def)
  have e: "elems ex_rt3 (eventRing ex_store3) = [ex_event ''E1'', ex_event ''E2'', ex_event ''E3'']"
    by (simp add: elems_def ex_rt3_def ex_store3_def)
  have a: "SetMaxEvents 0 (ex_rt3, ex_store3) = Some (ex_rt3, ex_store3)"
    using SetMaxEvents_resize[of 0 ex_rt3 ex_store3] by simp
  from SetMaxEvents_resize[of 2 ex_rt3 ex_store3] v obtain rt' s' where
    R: "SetMaxEvents 2 (ex_rt3, ex_store3) = Some (rt', s')" "maxEvents s' = 2"
       "elems rt' (eventRing s') = lastn (nat 2) (elems ex_rt3 (eventRing ex_store3))"
       "elems rt' (RecentEvents (snapshot s')) = elems rt' (eventRing s')"
    by auto
  have "elems rt' (eventRing s') = [ex_event ''E2'', ex_event ''E3'']"
    using R(3) e by (simp add: lastn_def)
  with a R show ?thesis by simp
qed

subsection \<open>C7: replacing the snapshot\<close>

text \<open>
  Claim C7 as stated fails: \<open>Update\<close> does not take over a recent-events list that the
  caller supplies. On a fresh store, a caller who passes one recent event gets a snapshot
  with none, where wholesale replacement (\<open>spec_update\<close>) would keep the caller's event.
\<close>

theorem Update_not_wholesale_counterexample:
  "view (fst (Update ex_partial 9 (ex_rt1, NewStore 0)))
        (snapshot (snd (Update ex_partial 9 (ex_rt1, NewStore 0))))
   \<noteq> spec_update (view ex_rt1 ex_partial) 9 (view ex_rt1 (snapshot (NewStore 0)))"
  by (simp add: Update_def view_def spec_update_def ex_partial_def ex_rt1_def NewStore_def
      go_clone_def slice_len_def elems_def IsZero_def ex_event_def)

text \<open>
  Claim C7, amended. \<open>Update\<close> takes state and message from the caller, fills an unset
  update time with the clock, keeps the previous last-event summary when the caller's is
  empty, and always sets the recent events to the contents of the store's ring, whatever
  the caller supplied; on a store that satisfies the store invariant these are the
  previous snapshot's recent events. The ring and the maximum are untouched.
\<close>

theorem Update_carries_ring:
  assumes "valid rt (eventRing s)"
  shows "view (fst (Update p now (rt, s))) (snapshot (snd (Update p now (rt, s)))) =
           (State p, Message p,
            (if LastEvent p = [] then LastEvent (snapshot s) else LastEvent p),
            (if UpdatedAt p = 0 then now else UpdatedAt p),
            elems rt (eventRing s)) \<and>
         (store_inv (rt, s) \<longrightarrow>
            elems (fst (Update p now (rt, s))) (RecentEvents (snapshot (snd (Update p now (rt, s)))))
              = elems rt (RecentEvents (snapshot s))) \<and>
         eventRing (snd (Update p now (rt, s))) = eventRing s \<and>
         maxEvents (snd (Update p now (rt, s))) = maxEvents s"
proof -
  obtain rt' s' where u: "Update p now (rt, s) = (rt', s')" by force
  from Update_spec[OF assms u] u show ?thesis
    by (auto simp: view_def store_inv_def)
qed

theorem Update_carries_ring_witness:
  "valid ex_rt4 (eventRing ex_store1) \<and> store_inv (ex_rt4, ex_store1) \<and>
   elems ex_rt4 (RecentEvents ex_partial2) = [ex_event ''zz''] \<and>
   view (fst (Update ex_partial2 9 (ex_rt4, ex_store1)))
        (snapshot (snd (Update ex_partial2 9 (ex_rt4, ex_store1)))) =
     (StateSyncing, ''busy'', ''WRITE a.txt'', 5, [ex_event ''E1'']) \<and>
   view (fst (Update ex_partial_unset 9 (ex_rt4, ex_store1)))
        (snapshot (snd (Update ex_partial_unset 9 (ex_rt4, ex_store1)))) =
     (StateSyncing, ''busy'', ''WRITE E1'', 9, [ex_event ''E1'']) \<and>
   elems (fst (Update ex_partial2 9 (ex_rt4, ex_store1)))
         (RecentEvents (snapshot (snd (Update ex_partial2 9 (ex_rt4, ex_store1)))))
     = elems ex_rt4 (RecentEvents (snapshot ex_store1))"
proof -
  have v: "valid ex_rt4 (eventRing ex_store1)"
    by (simp add: valid_def ex_rt4_def ex_store1_def)
  have i: "store_inv (ex_rt4, ex_store1)"
    by (simp add: store_inv_def ex_rt4_def ex_store1_def NewStore_def valid_def elems_def
        aliases_def slice_len_def)
  have e: "elems ex_rt4 (eventRing ex_store1) = [ex_event ''E1'']"
    by (simp add: elems_def ex_rt4_def ex_store1_def)
  have c: "elems ex_rt4 (RecentEvents ex_partial2) = [ex_event ''zz'']"
    by (simp add: elems_def ex_rt4_def ex_partial2_def)
  have l: "LastEvent (snapshot ex_store1) = ''WRITE E1''"
    by (simp add: ex_store1_def NewStore_def)
  have a: "view (fst (Update ex_partial2 9 (ex_rt4, ex_store1)))
        (snapshot (snd (Update ex_partial2 9 (ex_rt4, ex_store1)))) =
     (StateSyncing, ''busy'', ''WRITE a.txt'', 5, [ex_event ''E1''])"
    using Update_carries_ring[OF v, of ex_partial2 9] e by (simp add: ex_partial2_def)
  have b: "view (fst (Update ex_partial_unset 9 (ex_rt4, ex_store1)))
        (snapshot (snd (Update ex_partial_unset 9 (ex_rt4, ex_store1)))) =
     (StateSyncing, ''busy'', ''WRITE E1'', 9, [ex_event ''E1''])"
    using Update_carries_ring[OF v, of ex_partial_unset 9] e l by (simp add: ex_partial_unset_def)
  have d: "elems (fst (Update ex_partial2 9 (ex_rt4, ex_store1)))
         (RecentEvents (snapshot (snd (Update ex_partial2 9 (ex_rt4, ex_store1)))))
     = elems ex_rt4 (RecentEvents (snapshot ex_store1))"
    using Update_carries_ring[OF v, of ex_partial2 9] i by blast
  from v i c a b d show ?thesis by blast
qed

subsection \<open>C10: the snapshot's recent events mirror the ring\<close>

text \<open>
  Claim C10. The store invariant (the snapshot's recent events equal the ring's contents
  and share no backing array with it) holds for a new store and is kept by \<open>Update\<close>,
  \<open>AddEvent\<close>, \<open>SetMaxEvents\<close> and \<open>Current\<close>, none of which panics. \<open>Update\<close> writes the
  ring's contents whatever recent-events list the caller passed. Every recent-events slice
  written by \<open>Update\<close>, \<open>AddEvent\<close>, \<open>SetMaxEvents\<close> (for a positive maximum) or returned by
  \<open>Current\<close> is nil or lives in a backing array allocated by that very call, so it is never
  the ring's own slice: writing through the slice returned by \<open>Current\<close> leaves the ring as it was.
\<close>

theorem recent_events_mirror_ring:
  assumes "store_inv rs"
  shows "store_inv (rt0, NewStore now0) \<and>
         store_inv (Update p now rs) \<and>
         elems (fst (Update p now rs)) (RecentEvents (snapshot (snd (Update p now rs))))
           = elems (fst rs) (eventRing (snd rs)) \<and>
         fresh_in (fst rs) (RecentEvents (snapshot (snd (Update p now rs)))) \<and>
         (\<exists>rs'. AddEvent e now1 now2 rs = Some rs' \<and> store_inv rs' \<and>
                 fresh_in (fst rs) (RecentEvents (snapshot (snd rs')))) \<and>
         (\<exists>rs'. SetMaxEvents mx rs = Some rs' \<and> store_inv rs' \<and>
                 (0 < mx \<longrightarrow> fresh_in (fst rs) (RecentEvents (snapshot (snd rs'))))) \<and>
         store_inv (fst (Current rs), snd rs) \<and>
         elems (fst (Current rs)) (RecentEvents (snd (Current rs)))
           = elems (fst rs) (eventRing (snd rs)) \<and>
         fresh_in (fst rs) (RecentEvents (snd (Current rs))) \<and>
         \<not> aliases (RecentEvents (snd (Current rs))) (eventRing (snd rs)) \<and>
         (\<forall>j v rt'. slice_set (fst (Current rs)) (RecentEvents (snd (Current rs))) j v = Some rt'
            \<longrightarrow> elems rt' (eventRing (snd rs)) = elems (fst rs) (eventRing (snd rs)))"
proof -
  obtain rt s where rs: "rs = (rt, s)" by (cases rs)
  from assms rs have v: "valid rt (eventRing s)" and m: "0 \<le> maxEvents s"
    by (simp_all add: store_inv_def)
  have new: "store_inv (rt0, NewStore now0)" by (rule store_inv_NewStore)
  obtain rtu su where u: "Update p now (rt, s) = (rtu, su)" by force
  note U = Update_spec[OF v u]
  have upd: "store_inv (Update p now rs)" by (rule store_inv_Update[OF assms])
  have upd2: "elems (fst (Update p now rs)) (RecentEvents (snapshot (snd (Update p now rs))))
           = elems (fst rs) (eventRing (snd rs)) \<and>
         fresh_in (fst rs) (RecentEvents (snapshot (snd (Update p now rs))))"
    using U u rs by simp
  have add: "\<exists>rs'. AddEvent e now1 now2 rs = Some rs' \<and> store_inv rs' \<and>
                 fresh_in (fst rs) (RecentEvents (snapshot (snd rs')))"
  proof -
    from store_inv_AddEvent[OF assms, of e now1 now2] obtain rs' where
      a: "AddEvent e now1 now2 rs = Some rs'" "store_inv rs'" by blast
    from AddEvent_spec[OF v m, of e now1 now2] a rs
    have "fresh_in rt (RecentEvents (snapshot (snd rs')))" by auto
    with a rs show ?thesis by simp
  qed
  have setm: "\<exists>rs'. SetMaxEvents mx rs = Some rs' \<and> store_inv rs' \<and>
                 (0 < mx \<longrightarrow> fresh_in (fst rs) (RecentEvents (snapshot (snd rs'))))"
  proof -
    from store_inv_SetMaxEvents[OF assms, of mx] obtain rs' where
      a: "SetMaxEvents mx rs = Some rs'" "store_inv rs'" by blast
    have "0 < mx \<Longrightarrow> fresh_in rt (RecentEvents (snapshot (snd rs')))"
      using SetMaxEvents_spec[OF v, of mx] a rs by auto
    with a rs show ?thesis by simp
  qed
  obtain rtc snap where c: "Current (rt, s) = (rtc, snap)" by force
  note C = Current_spec[OF v c]
  have cur1: "store_inv (fst (Current rs), snd rs)"
    using store_inv_Current[OF assms, of rtc snap] c rs by simp
  have cur2: "elems (fst (Current rs)) (RecentEvents (snd (Current rs)))
           = elems (fst rs) (eventRing (snd rs)) \<and>
         fresh_in (fst rs) (RecentEvents (snd (Current rs))) \<and>
         \<not> aliases (RecentEvents (snd (Current rs))) (eventRing (snd rs))"
    using C c rs by simp
  have cur3: "\<forall>j v rt'. slice_set (fst (Current rs)) (RecentEvents (snd (Current rs))) j v = Some rt'
            \<longrightarrow> elems rt' (eventRing (snd rs)) = elems (fst rs) (eventRing (snd rs))"
  proof (intro allI impI)
    fix j v rt'
    assume w: "slice_set (fst (Current rs)) (RecentEvents (snd (Current rs))) j v = Some rt'"
    from C have na: "\<not> aliases (RecentEvents snap) (eventRing s)" by simp
    from w c rs have w': "slice_set rtc (RecentEvents snap) j v = Some rt'" by simp
    from slice_set_other[OF w' na] C rs
    show "elems rt' (eventRing (snd rs)) = elems (fst rs) (eventRing (snd rs))" by simp
  qed
  from new upd upd2 add setm cur1 cur2 cur3 show ?thesis by blast
qed

theorem recent_events_mirror_ring_witness:
  "store_inv (ex_rt4, ex_store1) \<and>
   elems (fst (Update ex_partial2 9 (ex_rt4, ex_store1)))
         (RecentEvents (snapshot (snd (Update ex_partial2 9 (ex_rt4, ex_store1))))) = [ex_event ''E1''] \<and>
   (\<exists>rs'. AddEvent (ex_event ''E2'') 1 2 (ex_rt4, ex_store1) = Some rs' \<and> store_inv rs') \<and>
   (\<exists>rs'. SetMaxEvents 3 (ex_rt4, ex_store1) = Some rs' \<and> store_inv rs') \<and>
   elems (fst (Current (ex_rt4, ex_store1))) (RecentEvents (snd (Current (ex_rt4, ex_store1))))
     = [ex_event ''E1''] \<and>
   \<not> aliases (RecentEvents (snd (Current (ex_rt4, ex_store1)))) (eventRing ex_store1) \<and>
   (\<exists>rt'. slice_set (fst (Current (ex_rt4, ex_store1))) (RecentEvents (snd (Current (ex_rt4, ex_store1))))
             0 (ex_event ''zz'') = Some rt' \<and>
          elems rt' (RecentEvents (snd (Current (ex_rt4, ex_store1)))) = [ex_event ''zz''] \<and>
          elems rt' (eventRing ex_store1) = [ex_event ''E1''])"
proof -
  have inv: "store_inv (ex_rt4, ex_store1)"
    by (simp add: store_inv_def ex_rt4_def ex_store1_def NewStore_def valid_def elems_def
        aliases_def slice_len_def)
  have e: "elems ex_rt4 (eventRing ex_store1) = [ex_event ''E1'']"
    by (simp add: ex_rt4_def ex_store1_def elems_def)
  have c: "RecentEvents (snd (Current (ex_rt4, ex_store1))) = Slice 3 0 1"
    by (simp add: Current_def go_clone_def alloc_def slice_len_def ex_rt4_def ex_store1_def)
  obtain rt' where w: "slice_set (fst (Current (ex_rt4, ex_store1)))
      (RecentEvents (snd (Current (ex_rt4, ex_store1)))) 0 (ex_event ''zz'') = Some rt'"
    by (simp add: c slice_set_def)
  have z: "elems rt' (RecentEvents (snd (Current (ex_rt4, ex_store1)))) = [ex_event ''zz'']"
    using w
    by (auto simp: c slice_set_def elems_def Current_def go_clone_def alloc_def slice_len_def
        newcap_def ex_rt4_def ex_store1_def nth_append)
  from recent_events_mirror_ring[OF inv, of ex_rt 0 ex_partial2 9 "ex_event ''E2''" 1 2 3] inv e w z
  show ?thesis by auto
qed

section \<open>The sync queue\<close>

lemma NewQueue_cap:
  "ch_cap (ch (NewQueue c)) = (if c \<le> 0 then 1024 else nat c) \<and> ch_buf (ch (NewQueue c)) = []
    \<and> q_logger (NewQueue c) = []"
  by (simp add: NewQueue_def make_chan_def Let_def)

lemma queue_step_cap: "ch_cap (ch (queue_step x q)) = ch_cap (ch q)"
  by (cases x) (auto simp: Enqueue_def try_send_def try_recv_def split: option.splits list.splits if_splits)

lemma queue_step_bound:
  "length (ch_buf (ch q)) \<le> ch_cap (ch q) \<Longrightarrow> length (ch_buf (ch (queue_step x q))) \<le> ch_cap (ch q)"
  by (cases x) (auto simp: Enqueue_def try_send_def try_recv_def split: option.splits list.splits if_splits)

lemma queue_run_bound:
  "length (ch_buf (ch q)) \<le> ch_cap (ch q) \<Longrightarrow>
     length (ch_buf (ch (queue_run xs q))) \<le> ch_cap (ch q) \<and> ch_cap (ch (queue_run xs q)) = ch_cap (ch q)"
proof (induction xs arbitrary: q)
  case Nil
  then show ?case by simp
next
  case (Cons x xs)
  from queue_step_bound[OF Cons.prems, of x] queue_step_cap[of x q]
  have "length (ch_buf (ch (queue_step x q))) \<le> ch_cap (ch (queue_step x q))" by simp
  from Cons.IH[OF this] queue_step_cap[of x q] show ?case by simp
qed

lemma Enqueue_full:
  "length (ch_buf (ch q)) = ch_cap (ch q) \<Longrightarrow>
     Enqueue e q = q\<lparr>q_logger := q_logger q @ [(''sync queue full; dropping event'', Path e)]\<rparr>"
  by (simp add: Enqueue_def try_send_def)

lemma Enqueue_room:
  "length (ch_buf (ch q)) < ch_cap (ch q) \<Longrightarrow>
     Enqueue e q = q\<lparr>ch := (ch q)\<lparr>ch_buf := ch_buf (ch q) @ [e]\<rparr>\<rparr>"
  by (simp add: Enqueue_def try_send_def)

lemma Enqueues_buf:
  "length (ch_buf (ch q)) \<le> ch_cap (ch q) \<Longrightarrow>
   ch_buf (ch (Enqueues es q)) = take (ch_cap (ch q)) (ch_buf (ch q) @ es) \<and>
   ch_cap (ch (Enqueues es q)) = ch_cap (ch q) \<and>
   q_logger (Enqueues es q) = q_logger q @
      map (\<lambda>e. (''sync queue full; dropping event'', Path e)) (drop (ch_cap (ch q) - length (ch_buf (ch q))) es)"
proof (induction es arbitrary: q)
  case Nil
  then show ?case by simp
next
  case (Cons e es)
  show ?case
  proof (cases "length (ch_buf (ch q)) < ch_cap (ch q)")
    case True
    let ?q = "q\<lparr>ch := (ch q)\<lparr>ch_buf := ch_buf (ch q) @ [e]\<rparr>\<rparr>"
    have le: "length (ch_buf (ch ?q)) \<le> ch_cap (ch ?q)" using True by simp
    have d: "ch_cap (ch q) - length (ch_buf (ch q)) = Suc (ch_cap (ch q) - Suc (length (ch_buf (ch q))))"
      using True by simp
    from Cons.IH[OF le] True show ?thesis
      by (simp add: Enqueue_room d)
  next
    case False
    with Cons.prems have full: "length (ch_buf (ch q)) = ch_cap (ch q)" by simp
    let ?q = "q\<lparr>q_logger := q_logger q @ [(''sync queue full; dropping event'', Path e)]\<rparr>"
    have le: "length (ch_buf (ch ?q)) \<le> ch_cap (ch ?q)" using full by simp
    from Cons.IH[OF le] full show ?thesis
      by (simp add: Enqueue_full)
  qed
qed

subsection \<open>C4: the bounded queue\<close>

text \<open>
  Claim C4. A queue built by \<open>NewQueue c\<close> has capacity \<open>c\<close>, or 1024 when \<open>c\<close> is not
  positive. Over every sequence of enqueues and receives its length never exceeds the
  capacity. \<open>Enqueue\<close> is a total function (it never blocks): into a full queue it leaves
  the channel as it was and records one warning naming the dropped event's path; otherwise
  it appends the event and logs nothing. After any sequence of enqueues on a new queue the
  channel holds the first \<open>C\<close> of them, in order.
\<close>

theorem Enqueue_bounded:
  "ch_cap (ch (NewQueue c)) = (if c \<le> 0 then 1024 else nat c) \<and>
   length (ch_buf (ch (queue_run xs (NewQueue c)))) \<le> ch_cap (ch (NewQueue c)) \<and>
   ch_buf (ch (Enqueues es (NewQueue c))) = take (ch_cap (ch (NewQueue c))) es \<and>
   (length (ch_buf (ch q)) = ch_cap (ch q) \<longrightarrow>
      ch (Enqueue e q) = ch q \<and>
      q_logger (Enqueue e q) = q_logger q @ [(''sync queue full; dropping event'', Path e)]) \<and>
   (length (ch_buf (ch q)) < ch_cap (ch q) \<longrightarrow>
      ch_buf (ch (Enqueue e q)) = ch_buf (ch q) @ [e] \<and> q_logger (Enqueue e q) = q_logger q)"
proof -
  have n: "length (ch_buf (ch (NewQueue c))) \<le> ch_cap (ch (NewQueue c))"
    by (simp add: NewQueue_cap)
  from queue_run_bound[OF n, of xs] Enqueues_buf[OF n, of es] NewQueue_cap[of c]
  show ?thesis by (auto simp: Enqueue_full Enqueue_room)
qed

theorem Enqueue_bounded_witness:
  "ch_cap (ch (NewQueue 0)) = 1024 \<and>
   ch_buf (ch (Enqueues [ex_fs_event ''a'', ex_fs_event ''b'', ex_fs_event ''c''] (NewQueue 2)))
     = [ex_fs_event ''a'', ex_fs_event ''b''] \<and>
   ch (Enqueue (ex_fs_event ''c'') (Enqueues [ex_fs_event ''a'', ex_fs_event ''b''] (NewQueue 2)))
     = ch (Enqueues [ex_fs_event ''a'', ex_fs_event ''b''] (NewQueue 2)) \<and>
   q_logger (Enqueue (ex_fs_event ''c'') (Enqueues [ex_fs_event ''a'', ex_fs_event ''b''] (NewQueue 2)))
     = [(''sync queue full; dropping event'', ''c'')] \<and>
   ch_buf (ch (Enqueue (ex_fs_event ''a'') (NewQueue 2))) = [ex_fs_event ''a'']"
proof -
  let ?q2 = "Enqueues [ex_fs_event ''a'', ex_fs_event ''b''] (NewQueue 2)"
  have full: "length (ch_buf (ch ?q2)) = ch_cap (ch ?q2)"
    by (simp add: NewQueue_def make_chan_def Enqueue_def try_send_def)
  have lg: "q_logger ?q2 = []"
    by (simp add: NewQueue_def make_chan_def Enqueue_def try_send_def)
  have room: "length (ch_buf (ch (NewQueue 2))) < ch_cap (ch (NewQueue 2))"
    by (simp add: NewQueue_def make_chan_def)
  have b0: "ch_buf (ch (NewQueue 2)) = [] \<and> q_logger (NewQueue 2) = []"
    by (simp add: NewQueue_def make_chan_def)
  show ?thesis
    using Enqueue_bounded[of 0 "[]" "[]" ?q2 "ex_fs_event ''c''"]
      Enqueue_bounded[of 2 "[]" "[ex_fs_event ''a'', ex_fs_event ''b'', ex_fs_event ''c'']" "NewQueue 2" "ex_fs_event ''a''"]
      full lg room b0
    by (simp add: ex_fs_event_def)
qed

section \<open>The watcher: frame and invariant lemmas\<close>

lemmas watcher_defs = handleEvent_def flushPending_def run_step_def shouldIgnore_def
  filepath_Base_def hasSuffix_def suffixes_def normalizeOp_def fsnotify_Create_def
  fsnotify_Write_def fsnotify_Remove_def fsnotify_Rename_def fsnotify_Chmod_def
  try_send_def try_recv_def make_chan_def SetLastEvent_def formatEvent_def

lemma normalizeOp_find:
  "normalizeOp m = (case find (has_bit m) [OpCreate, OpWrite, OpRemove, OpRename, OpChmod] of
                      Some x \<Rightarrow> x | None \<Rightarrow> OpUnknown)"
  by (simp add: normalizeOp_def has_bit_def)

lemma normalizeOp_Unknown_no_Create:
  "normalizeOp m = OpUnknown \<Longrightarrow> m AND fsnotify_Create \<noteq> fsnotify_Create"
  by (auto simp: normalizeOp_def split: if_splits)

lemma handleEvent_Unknown:
  "normalizeOp (fsOp evt) = OpUnknown \<Longrightarrow> handleEvent L cfg os now evt w = w"
  using normalizeOp_Unknown_no_Create[of "fsOp evt"]
  by (simp add: handleEvent_def Let_def)

lemma addRecursive_frame:
  "snd (addRecursive L cfg os root w) = w\<lparr>watcher := watcher (snd (addRecursive L cfg os root w))\<rparr>"
  by (simp add: addRecursive_def split: prod.splits)

lemma addRecursive_fst:
  "fst (addRecursive L cfg os root w) = fst (WalkDir L cfg os root (watcher w))"
  by (simp add: addRecursive_def split: prod.splits)

lemma addRecursive_fields:
  "pending (snd (addRecursive L cfg os root w)) = pending w \<and>
   out (snd (addRecursive L cfg os root w)) = out w \<and>
   status (snd (addRecursive L cfg os root w)) = status w \<and>
   heap (snd (addRecursive L cfg os root w)) = heap w \<and>
   running (snd (addRecursive L cfg os root w)) = running w \<and>
   debounce (snd (addRecursive L cfg os root w)) = debounce w \<and>
   logger (snd (addRecursive L cfg os root w)) = logger w \<and>
   mkdir_calls (snd (addRecursive L cfg os root w)) = mkdir_calls w"
  by (simp add: addRecursive_def split: prod.splits)

lemma handleEvent_ignored:
  "shouldIgnore L cfg (Name evt) \<Longrightarrow> handleEvent L cfg os now evt w = w"
  by (simp add: handleEvent_def)

lemma handleEvent_fields:
  "out (handleEvent L cfg os now evt w) = out w \<and>
   status (handleEvent L cfg os now evt w) = status w \<and>
   heap (handleEvent L cfg os now evt w) = heap w \<and>
   running (handleEvent L cfg os now evt w) = running w \<and>
   debounce (handleEvent L cfg os now evt w) = debounce w"
  by (simp add: handleEvent_def Let_def addRecursive_fields)

lemma handleEvent_pending:
  "pending (handleEvent L cfg os now evt w) =
     (if shouldIgnore L cfg (Name evt) \<or> normalizeOp (fsOp evt) = OpUnknown then pending w
      else (pending w)(Name evt \<mapsto> \<lparr>Path = Name evt, Op = normalizeOp (fsOp evt), When = now + debounce w\<rparr>))"
  by (simp add: handleEvent_def Let_def addRecursive_fields)

lemma handleEvent_ignore_inv:
  "ignore_inv L cfg w \<Longrightarrow> ignore_inv L cfg (handleEvent L cfg os now evt w)"
  unfolding ignore_inv_def
  by (simp add: handleEvent_pending handleEvent_fields)

lemma collectReady_spec:
  "collectReady now order pend ready = (pend', ready') \<Longrightarrow>
     (\<forall>p e. pend' p = Some e \<longrightarrow> pend p = Some e) \<and>
     (\<forall>x \<in> set ready'. x \<in> set ready \<or> (\<exists>e. pend (Path x) = Some e \<and> Op x = Op e \<and> When e \<le> now))"
proof (induction order arbitrary: pend ready pend' ready')
  case Nil
  then show ?case by auto
next
  case (Cons path rest)
  show ?case
  proof (cases "pend path")
    case None
    with Cons.prems have "collectReady now rest pend ready = (pend', ready')" by simp
    from Cons.IH[OF this] show ?thesis .
  next
    case (Some evt)
    show ?thesis
    proof (cases "When evt < now \<or> When evt = now")
      case True
      with Cons.prems Some have
        "collectReady now rest (pend(path := None)) (ready @ [\<lparr>Path = path, Op = Op evt, When = now\<rparr>]) = (pend', ready')"
        by simp
      from Cons.IH[OF this] have
        I1: "\<forall>p e. pend' p = Some e \<longrightarrow> (pend(path := None)) p = Some e" and
        I2: "\<forall>x \<in> set ready'. x \<in> set (ready @ [\<lparr>Path = path, Op = Op evt, When = now\<rparr>]) \<or>
               (\<exists>e. (pend(path := None)) (Path x) = Some e \<and> Op x = Op e \<and> When e \<le> now)"
        by blast+
      have le: "When evt \<le> now" using True by auto
      have A: "\<forall>p e. pend' p = Some e \<longrightarrow> pend p = Some e"
      proof (intro allI impI)
        fix p e assume "pend' p = Some e"
        with I1 have "(pend(path := None)) p = Some e" by blast
        then show "pend p = Some e" by (cases "p = path") auto
      qed
      have B: "\<forall>x \<in> set ready'. x \<in> set ready \<or> (\<exists>e. pend (Path x) = Some e \<and> Op x = Op e \<and> When e \<le> now)"
      proof
        fix x assume "x \<in> set ready'"
        with I2 consider "x \<in> set ready" | "x = \<lparr>Path = path, Op = Op evt, When = now\<rparr>"
          | e where "(pend(path := None)) (Path x) = Some e" "Op x = Op e" "When e \<le> now"
          by auto
        then show "x \<in> set ready \<or> (\<exists>e. pend (Path x) = Some e \<and> Op x = Op e \<and> When e \<le> now)"
        proof cases
          case 1
          then show ?thesis by simp
        next
          case 2
          with Some le show ?thesis by simp
        next
          case 3
          then have "pend (Path x) = Some e" by (cases "Path x = path") auto
          with 3 show ?thesis by blast
        qed
      qed
      from A B show ?thesis by blast
    next
      case False
      with Cons.prems Some have "collectReady now rest pend ready = (pend', ready')" by simp
      from Cons.IH[OF this] show ?thesis .
    qed
  qed
qed

lemma deliver_spec:
  "pending (deliver L cfg es w) = pending w \<and>
   heap (deliver L cfg es w) = heap w \<and>
   running (deliver L cfg es w) = running w \<and>
   eventRing (status (deliver L cfg es w)) = eventRing (status w) \<and>
   maxEvents (status (deliver L cfg es w)) = maxEvents (status w) \<and>
   RecentEvents (snapshot (status (deliver L cfg es w))) = RecentEvents (snapshot (status w)) \<and>
   set (ch_buf (out (deliver L cfg es w))) \<subseteq> set (ch_buf (out w)) \<union> set es"
proof (induction es arbitrary: w)
  case Nil
  then show ?case by simp
next
  case (Cons e es)
  let ?w1 = "w\<lparr>status := SetLastEvent (formatEvent L e (SyncRoot cfg)) (status w)\<rparr>"
  show ?case
  proof (cases "try_send e (out ?w1)")
    case None
    with Cons.IH[of "?w1\<lparr>logger := logger ?w1 @ [(''fswatch event dropped'', Path e)]\<rparr>"]
    show ?thesis by (auto simp: Let_def SetLastEvent_def)
  next
    case (Some c)
    then have "set (ch_buf c) \<subseteq> set (ch_buf (out w)) \<union> {e}"
      by (auto simp: try_send_def split: if_splits)
    with Some Cons.IH[of "?w1\<lparr>out := c\<rparr>"]
    show ?thesis by (auto simp: Let_def SetLastEvent_def)
  qed
qed

lemma flushPending_spec:
  "heap (flushPending L cfg now order w) = heap w \<and>
   running (flushPending L cfg now order w) = running w \<and>
   eventRing (status (flushPending L cfg now order w)) = eventRing (status w) \<and>
   maxEvents (status (flushPending L cfg now order w)) = maxEvents (status w) \<and>
   RecentEvents (snapshot (status (flushPending L cfg now order w))) = RecentEvents (snapshot (status w)) \<and>
   (\<forall>p e. pending (flushPending L cfg now order w) p = Some e \<longrightarrow> pending w p = Some e) \<and>
   (\<forall>x \<in> set (ch_buf (out (flushPending L cfg now order w))).
       x \<in> set (ch_buf (out w)) \<or> (\<exists>e. pending w (Path x) = Some e \<and> Op x = Op e \<and> When e \<le> now))"
proof -
  obtain pend ready where c: "collectReady now order (pending w) [] = (pend, ready)" by force
  note C = collectReady_spec[OF c]
  note D = deliver_spec[of L cfg ready "w\<lparr>pending := pend\<rparr>"]
  have f: "flushPending L cfg now order w = deliver L cfg ready (w\<lparr>pending := pend\<rparr>)"
    by (simp add: flushPending_def c)
  from C D show ?thesis unfolding f by (auto simp del: deliver.simps)
qed

lemma flushPending_ignore_inv:
  assumes "ignore_inv L cfg w"
  shows "ignore_inv L cfg (flushPending L cfg now order w)"
  using assms flushPending_spec[of L cfg now order w]
  unfolding ignore_inv_def
  by (metis)

lemma status_Update_fields:
  "pending (status_Update p now w) = pending w \<and> out (status_Update p now w) = out w \<and>
   running (status_Update p now w) = running w \<and> watcher (status_Update p now w) = watcher w \<and>
   mkdir_calls (status_Update p now w) = mkdir_calls w \<and> logger (status_Update p now w) = logger w \<and>
   (heap (status_Update p now w), status (status_Update p now w)) = Update p now (heap w, status w)"
  by (simp add: status_Update_def split: prod.splits)


lemma status_Update_store:
  assumes "store_inv (heap w, status w)"
  shows "store_inv (heap (status_Update p now w), status (status_Update p now w)) \<and>
         ring_events (status_Update p now w) = ring_events w \<and>
         State (snapshot (status (status_Update p now w))) = State p \<and>
         Message (snapshot (status (status_Update p now w))) = Message p"
proof -
  obtain rt' s' where u: "Update p now (heap w, status w) = (rt', s')" by force
  from assms have v: "valid (heap w) (eventRing (status w))" by (simp add: store_inv_def)
  from store_inv_Update[OF assms, of p now] Update_spec[OF v u] u status_Update_fields[of p now w]
  show ?thesis by (auto simp: ring_events_def)
qed

lemma store_inv_frame:
  assumes "store_inv (heap w, status w)" "heap w' = heap w" "eventRing (status w') = eventRing (status w)"
    "maxEvents (status w') = maxEvents (status w)"
    "RecentEvents (snapshot (status w')) = RecentEvents (snapshot (status w))"
  shows "store_inv (heap w', status w') \<and> ring_events w' = ring_events w"
  using assms by (simp add: store_inv_def ring_events_def)


lemma run_step_inv:
  assumes "watch_inv L cfg w"
  shows "watch_inv L cfg (run_step L cfg x w) \<and> ring_events (run_step L cfg x w) = ring_events w"
proof -
  obtain os now inp where x: "x = (os, now, inp)" by (cases x) auto
  from assms have ig: "ignore_inv L cfg w" and st: "store_inv (heap w, status w)"
    by (simp_all add: watch_inv_def)
  show ?thesis
  proof (cases "running w \<or> inp = OutReceive")
    case False
    then have "run_step L cfg x w = w" by (cases inp) (simp_all add: run_step_def x)
    with assms show ?thesis by simp
  next
    case True
    show ?thesis
    proof (cases inp)
      case CtxDone
      with True x assms show ?thesis
        by (simp add: run_step_def watch_inv_def ignore_inv_def ring_events_def)
    next
      case (FsEvent evt)
      with True x have r: "run_step L cfg x w = handleEvent L cfg os now evt w"
        by (simp add: run_step_def)
      from handleEvent_ignore_inv[OF ig, of os now evt] handleEvent_fields[of L cfg os now evt w] st
      show ?thesis unfolding r by (simp add: watch_inv_def ring_events_def)
    next
      case FsEventsClosed
      with True x assms show ?thesis
        by (simp add: run_step_def watch_inv_def ignore_inv_def ring_events_def)
    next
      case (FsError err)
      let ?w = "w\<lparr>logger := logger w @ [(''fswatch error'', [])]\<rparr>"
      let ?p = "\<lparr>State = StateError, Message = ''fswatch error'', LastEvent = [],
                                    UpdatedAt = 0, RecentEvents = NilSlice\<rparr>"
      from FsError True x have r: "run_step L cfg x w = status_Update ?p now ?w"
        by (simp add: run_step_def)
      have st': "store_inv (heap ?w, status ?w)" using st by simp
      from status_Update_store[OF st', of ?p now] status_Update_fields[of ?p now ?w] ig
      show ?thesis unfolding r by (simp add: watch_inv_def ignore_inv_def ring_events_def)
    next
      case FsErrorsClosed
      with True x assms show ?thesis
        by (simp add: run_step_def watch_inv_def ignore_inv_def ring_events_def)
    next
      case (Tick order)
      with True x have r: "run_step L cfg x w = flushPending L cfg now order w"
        by (simp add: run_step_def)
      note F = flushPending_spec[of L cfg now order w]
      from store_inv_frame[OF st, of "flushPending L cfg now order w"] F
        flushPending_ignore_inv[OF ig, of now order]
      show ?thesis unfolding r by (simp add: watch_inv_def)
    next
      case OutReceive
      show ?thesis
      proof (cases "try_recv (out w)")
        case None
        with OutReceive x assms show ?thesis by (simp add: run_step_def)
      next
        case (Some a)
        obtain e c where a: "a = (e, c)" by (cases a)
        from Some a have "set (ch_buf c) \<subseteq> set (ch_buf (out w))"
          by (auto simp: try_recv_def split: list.splits)
        with Some a OutReceive x assms show ?thesis
          by (auto simp: run_step_def watch_inv_def ignore_inv_def ring_events_def)
      qed
    qed
  qed
qed

lemma run_inv:
  assumes "watch_inv L cfg w"
  shows "watch_inv L cfg (run L cfg xs w) \<and> ring_events (run L cfg xs w) = ring_events w"
  using assms
proof (induction xs arbitrary: w)
  case Nil
  then show ?case by simp
next
  case (Cons x xs)
  from run_step_inv[OF Cons.prems, of x] Cons.IH[of "run_step L cfg x w"]
  show ?case by simp
qed

lemma Start_cases:
  "Start L cfg os now w =
     (if SyncRoot cfg = [] then (None, w)
      else if os_MkdirAll os (SyncRoot cfg) \<noteq> None
      then (os_MkdirAll os (SyncRoot cfg), w\<lparr>mkdir_calls := mkdir_calls w @ [SyncRoot cfg]\<rparr>)
      else if fst (WalkDir L cfg os (SyncRoot cfg) (watcher w)) \<noteq> None
      then (fst (WalkDir L cfg os (SyncRoot cfg) (watcher w)),
            w\<lparr>mkdir_calls := mkdir_calls w @ [SyncRoot cfg],
              watcher := snd (WalkDir L cfg os (SyncRoot cfg) (watcher w))\<rparr>)
      else (None, (status_Update \<lparr>State = StateIdle, Message = ''watching'', LastEvent = [],
                                   UpdatedAt = 0, RecentEvents = NilSlice\<rparr> now
                     (w\<lparr>mkdir_calls := mkdir_calls w @ [SyncRoot cfg],
                        watcher := snd (WalkDir L cfg os (SyncRoot cfg) (watcher w))\<rparr>))
                  \<lparr>running := True\<rparr>))"
  by (auto simp: Start_def Let_def addRecursive_def split: option.splits prod.splits)

lemma Start_inv:
  assumes "watch_inv L cfg w"
  shows "watch_inv L cfg (snd (Start L cfg os now w)) \<and> ring_events (snd (Start L cfg os now w)) = ring_events w"
proof -
  let ?p = "\<lparr>State = StateIdle, Message = ''watching'', LastEvent = [],
                                   UpdatedAt = 0, RecentEvents = NilSlice\<rparr>"
  let ?w = "w\<lparr>mkdir_calls := mkdir_calls w @ [SyncRoot cfg],
                        watcher := snd (WalkDir L cfg os (SyncRoot cfg) (watcher w))\<rparr>"
  from assms have ig: "ignore_inv L cfg w" and st: "store_inv (heap w, status w)"
    by (simp_all add: watch_inv_def)
  have st': "store_inv (heap ?w, status ?w)" using st by simp
  from status_Update_store[OF st', of ?p now] status_Update_fields[of ?p now ?w] ig st
  show ?thesis
    by (simp add: Start_cases watch_inv_def ignore_inv_def ring_events_def)
qed

lemma NewWatcher_inv:
  assumes "NewWatcher None rs = Inr w" "store_inv rs"
  shows "watch_inv L cfg w \<and> \<not> running w \<and> ch_buf (out w) = [] \<and> pending w = Map.empty"
  using assms by (auto simp: NewWatcher_def watch_inv_def ignore_inv_def make_chan_def)

lemma run_not_running:
  assumes "\<not> running w"
  shows "\<exists>k. run L cfg xs w = w\<lparr>out := (out w)\<lparr>ch_buf := drop k (ch_buf (out w))\<rparr>\<rparr>"
proof -
  have "\<exists>k'. run L cfg xs (w\<lparr>out := (out w)\<lparr>ch_buf := drop k (ch_buf (out w))\<rparr>\<rparr>)
            = w\<lparr>out := (out w)\<lparr>ch_buf := drop k' (ch_buf (out w))\<rparr>\<rparr>" for k
  proof (induction xs arbitrary: k)
    case Nil
    show ?case by auto
  next
    case (Cons x xs)
    let ?wk = "w\<lparr>out := (out w)\<lparr>ch_buf := drop k (ch_buf (out w))\<rparr>\<rparr>"
    obtain os now inp where x: "x = (os, now, inp)" by (cases x) auto
    have "run_step L cfg x ?wk = ?wk \<or>
          run_step L cfg x ?wk = w\<lparr>out := (out w)\<lparr>ch_buf := drop (Suc k) (ch_buf (out w))\<rparr>\<rparr>"
    proof (cases inp)
      case OutReceive
      show ?thesis
      proof (cases "drop k (ch_buf (out w))")
        case Nil
        with OutReceive x show ?thesis by (simp add: run_step_def try_recv_def)
      next
        case (Cons a as)
        then have "as = drop (Suc k) (ch_buf (out w))"
          by (metis drop_Suc list.sel(3) tl_drop)
        with Cons OutReceive x show ?thesis by (simp add: run_step_def try_recv_def)
      qed
    qed (use assms x in \<open>simp_all add: run_step_def\<close>)
    with Cons.IH[of k] Cons.IH[of "Suc k"] show ?case by auto
  qed
  from this[of 0] show ?thesis by simp
qed

lemma hasSuffix_iff: "hasSuffix b suf \<longleftrightarrow> (\<exists>pre. b = pre @ suf)"
proof
  assume "hasSuffix b suf"
  then have "b = take (length b - length suf) b @ suf"
    by (metis append_take_drop_id hasSuffix_def)
  then show "\<exists>pre. b = pre @ suf" ..
next
  assume "\<exists>pre. b = pre @ suf"
  then show "hasSuffix b suf" by (auto simp: hasSuffix_def)
qed

lemma shouldIgnore_iff:
  "shouldIgnore L cfg q \<longleftrightarrow>
     (filepath_Base q = ''.'' \<or> filepath_Base q = ''..'' \<or>
      (LogFilePath cfg \<noteq> [] \<and> q = LogFilePath cfg) \<or>
      (DatabasePath cfg \<noteq> [] \<and> q = DatabasePath cfg) \<or>
      (SocketPath cfg \<noteq> [] \<and> q = SocketPath cfg) \<or>
      (\<exists>pat \<in> set (IgnorePatterns cfg). filepath_Match L pat (filepath_Base q)) \<or>
      (\<exists>suf \<in> set [''.swp'', ''.tmp'', ''~'', ''.DS_Store'']. \<exists>pre. filepath_Base q = pre @ suf))"
  unfolding shouldIgnore_def Let_def list_ex_iff suffixes_def hasSuffix_iff
  by (simp only: if_True if_False split: if_splits) blast

lemma Update_State_Message:
  "State (snapshot (snd (Update p now rs))) = State p \<and> Message (snapshot (snd (Update p now rs))) = Message p"
  by (simp add: Update_def Let_def split: prod.splits)

lemma status_Update_State_Message:
  "State (snapshot (status (status_Update p now w))) = State p \<and>
   Message (snapshot (status (status_Update p now w))) = Message p"
  using Update_State_Message[of p now "(heap w, status w)"]
  by (cases "Update p now (heap w, status w)") (simp add: status_Update_def)

lemma WalkDir_Lstat_fails: "os_Lstat os root = Inl e \<Longrightarrow> fst (WalkDir L cfg os root ws) = Some e"
  by (simp add: WalkDir_def visit_def)

lemma NewWatcher_error: "NewWatcher fe rs = Inl e \<longleftrightarrow> fe = Some e"
  by (cases fe) (simp_all add: NewWatcher_def)

lemma Close_error: "fst (Close fc w) = fst (fc (watcher w))"
  by (simp add: Close_def split: prod.splits)

lemma run_step_FsError:
  "running w \<Longrightarrow>
     running (run_step L cfg (os, now, FsError err) w) \<and>
     State (snapshot (status (run_step L cfg (os, now, FsError err) w))) = StateError \<and>
     pending (run_step L cfg (os, now, FsError err) w) = pending w \<and>
     out (run_step L cfg (os, now, FsError err) w) = out w"
  using status_Update_fields[of "\<lparr>State = StateError, Message = ''fswatch error'', LastEvent = [],
                                    UpdatedAt = 0, RecentEvents = NilSlice\<rparr>" now
                       "w\<lparr>logger := logger w @ [(''fswatch error'', [])]\<rparr>"]
        status_Update_State_Message[of "\<lparr>State = StateError, Message = ''fswatch error'', LastEvent = [],
                                    UpdatedAt = 0, RecentEvents = NilSlice\<rparr>" now
                       "w\<lparr>logger := logger w @ [(''fswatch error'', [])]\<rparr>"]
  by (simp add: run_step_def)

subsection \<open>C1: what a burst on one path leaves pending\<close>

text \<open>
  Claim C1 asks for the highest-priority operation of the debounce window to be emitted.
  \<open>handleEvent\<close> overwrites the pending record without consulting \<open>mergeOp\<close>: a Remove
  followed 10 ms later by a Write on the same path is flushed as a Write, although
  \<open>mergeOp OpRemove OpWrite\<close> is \<open>OpRemove\<close>. The theorem runs the code on that input.
\<close>

theorem handleEvent_last_event_wins:
  "ch_buf (out (run ex_lib ex_cfg
      [(ex_os, ms 0, FsEvent \<lparr>Name = ''/sync/a.txt'', fsOp = fsnotify_Remove\<rparr>),
       (ex_os, ms 10, FsEvent \<lparr>Name = ''/sync/a.txt'', fsOp = fsnotify_Write\<rparr>),
       (ex_os, ms 400, Tick [''/sync/a.txt''])]
      (ex_watcher\<lparr>running := True\<rparr>)))
   = [\<lparr>Path = ''/sync/a.txt'', Op = OpWrite, When = ms 400\<rparr>] \<and>
   mergeOp OpRemove OpWrite = OpRemove"
  by (simp add: watcher_defs ex_lib_def ex_cfg_def ex_os_def ex_watcher_def ms_def mergeOp_def Let_def)

subsection \<open>C2: normalizing the raw bitmask\<close>

text \<open>
  Claim C2 as stated fails: for the bitmask with both the Create and the Remove bit set,
  \<open>normalizeOp\<close> answers \<open>OpCreate\<close>, where the priority order of the claim
  (\<open>spec_normalizeOp\<close>) answers \<open>OpRemove\<close>.
\<close>

theorem normalizeOp_priority_counterexample:
  "normalizeOp (fsnotify_Create OR fsnotify_Remove) \<noteq> spec_normalizeOp (fsnotify_Create OR fsnotify_Remove)"
  by (simp add: normalizeOp_def spec_normalizeOp_def fsnotify_Create_def fsnotify_Remove_def
      fsnotify_Write_def fsnotify_Rename_def fsnotify_Chmod_def)

text \<open>
  Claim C2, amended. \<open>normalizeOp\<close> maps a bitmask to the first operation whose bit is
  set in the fixed order Create, Write, Remove, Rename, Chmod; it answers \<open>OpUnknown\<close>
  exactly when none of the five bits is set, and then \<open>handleEvent\<close> (and the loop step
  that calls it) leaves the whole watcher state unchanged: nothing becomes pending and
  nothing goes downstream.
\<close>

theorem normalizeOp_first_match:
  "normalizeOp m = (case find (has_bit m) [OpCreate, OpWrite, OpRemove, OpRename, OpChmod] of
                      Some x \<Rightarrow> x | None \<Rightarrow> OpUnknown) \<and>
   (normalizeOp m = OpUnknown \<longleftrightarrow>
      \<not> has_bit m OpCreate \<and> \<not> has_bit m OpWrite \<and> \<not> has_bit m OpRemove \<and>
      \<not> has_bit m OpRename \<and> \<not> has_bit m OpChmod) \<and>
   (normalizeOp (fsOp evt) = OpUnknown \<longrightarrow>
      handleEvent L cfg os now evt w = w \<and>
      run_step L cfg (os, now, FsEvent evt) w = w)"
proof -
  have a: "normalizeOp (fsOp evt) = OpUnknown \<Longrightarrow> run_step L cfg (os, now, FsEvent evt) w = w"
    by (simp add: run_step_def handleEvent_Unknown)
  have b: "normalizeOp m = OpUnknown \<longleftrightarrow>
      \<not> has_bit m OpCreate \<and> \<not> has_bit m OpWrite \<and> \<not> has_bit m OpRemove \<and>
      \<not> has_bit m OpRename \<and> \<not> has_bit m OpChmod"
    by (simp add: normalizeOp_def has_bit_def)
  from a b normalizeOp_find[of m] handleEvent_Unknown[of evt L cfg os now w] show ?thesis by blast
qed

theorem normalizeOp_first_match_witness:
  "normalizeOp (fsnotify_Create OR fsnotify_Remove) = OpCreate \<and>
   normalizeOp (fsnotify_Remove OR fsnotify_Rename OR fsnotify_Chmod) = OpRemove \<and>
   normalizeOp 32 = OpUnknown \<and>
   handleEvent ex_lib ex_cfg ex_os (ms 0) \<lparr>Name = ''/sync/a.txt'', fsOp = 32\<rparr> (ex_watcher\<lparr>running := True\<rparr>)
     = ex_watcher\<lparr>running := True\<rparr>"
proof -
  have u: "normalizeOp (fsOp \<lparr>Name = ''/sync/a.txt'', fsOp = 32\<rparr>) = OpUnknown"
    by (simp add: normalizeOp_def fsnotify_Create_def fsnotify_Remove_def
      fsnotify_Write_def fsnotify_Rename_def fsnotify_Chmod_def)
  have f1: "find (has_bit (fsnotify_Create OR fsnotify_Remove)) [OpCreate, OpWrite, OpRemove, OpRename, OpChmod] = Some OpCreate"
    by (simp add: has_bit_def fsnotify_Create_def fsnotify_Remove_def)
  have f2: "find (has_bit (fsnotify_Remove OR fsnotify_Rename OR fsnotify_Chmod)) [OpCreate, OpWrite, OpRemove, OpRename, OpChmod] = Some OpRemove"
    by (simp add: has_bit_def fsnotify_Create_def fsnotify_Remove_def
      fsnotify_Write_def fsnotify_Rename_def fsnotify_Chmod_def)
  show ?thesis
    using normalizeOp_first_match[of "fsnotify_Create OR fsnotify_Remove" "\<lparr>Name = ''/sync/a.txt'', fsOp = 32\<rparr>"
            ex_lib ex_cfg ex_os "ms 0" "ex_watcher\<lparr>running := True\<rparr>"]
          normalizeOp_first_match[of "fsnotify_Remove OR fsnotify_Rename OR fsnotify_Chmod" "\<lparr>Name = ''/sync/a.txt'', fsOp = 32\<rparr>"
            ex_lib ex_cfg ex_os "ms 0" "ex_watcher\<lparr>running := True\<rparr>"]
          u f1 f2
    by simp
qed

subsection \<open>C3: ignored paths\<close>

text \<open>
  Claim C3. A path is ignored exactly when its base name is \<open>.\<close> or \<open>..\<close>, or it equals
  the configured log, database or socket path, or its base name matches a configured
  pattern, or its base name ends with \<open>.swp\<close>, \<open>.tmp\<close>, \<open>~\<close> or \<open>.DS_Store\<close>. For an
  ignored path \<open>p\<close>, \<open>handleEvent\<close> returns the state it was given, whatever the bitmask
  (the event is dropped before normalization). From any watcher whose pending table and
  output channel mention only paths let through by the policy (a new watcher does), after
  \<open>Start\<close> and any sequence of loop inputs, nothing is pending for \<open>p\<close>, no event in the
  output channel has path \<open>p\<close>, and the store's ring and the snapshot's recent events are
  still the ring the run began with: the watcher adds no recent event.
\<close>

theorem ignored_paths_never_surface:
  assumes ign: "shouldIgnore L cfg p" and inv: "ignore_inv L cfg w" and st: "store_inv (heap w, status w)"
  shows "(shouldIgnore L cfg q \<longleftrightarrow>
            (filepath_Base q = ''.'' \<or> filepath_Base q = ''..'' \<or>
             (LogFilePath cfg \<noteq> [] \<and> q = LogFilePath cfg) \<or>
             (DatabasePath cfg \<noteq> [] \<and> q = DatabasePath cfg) \<or>
             (SocketPath cfg \<noteq> [] \<and> q = SocketPath cfg) \<or>
             (\<exists>pat \<in> set (IgnorePatterns cfg). filepath_Match L pat (filepath_Base q)) \<or>
             (\<exists>suf \<in> set [''.swp'', ''.tmp'', ''~'', ''.DS_Store'']. \<exists>pre. filepath_Base q = pre @ suf))) \<and>
         handleEvent L cfg os now \<lparr>Name = p, fsOp = m\<rparr> w' = w' \<and>
         pending (run L cfg xs (snd (Start L cfg os0 t0 w))) p = None \<and>
         (\<forall>e \<in> set (ch_buf (out (run L cfg xs (snd (Start L cfg os0 t0 w))))). Path e \<noteq> p) \<and>
         ring_events (run L cfg xs (snd (Start L cfg os0 t0 w))) = ring_events w \<and>
         recent_events (run L cfg xs (snd (Start L cfg os0 t0 w))) = ring_events w"
proof -
  let ?F = "run L cfg xs (snd (Start L cfg os0 t0 w))"
  have h: "handleEvent L cfg os now \<lparr>Name = p, fsOp = m\<rparr> w' = w'"
    using ign by (simp add: handleEvent_ignored)
  from inv st have wi: "watch_inv L cfg w" by (simp add: watch_inv_def)
  from Start_inv[OF wi, of os0 t0] have
    s1: "watch_inv L cfg (snd (Start L cfg os0 t0 w))" and
    s2: "ring_events (snd (Start L cfg os0 t0 w)) = ring_events w" by simp_all
  from run_inv[OF s1, of xs] s2 have
    f1: "watch_inv L cfg ?F" and f2: "ring_events ?F = ring_events w" by simp_all
  from f1 have ig: "ignore_inv L cfg ?F" and si: "store_inv (heap ?F, status ?F)"
    by (simp_all add: watch_inv_def)
  have pe: "pending ?F p = None"
  proof (cases "pending ?F p")
    case (Some e)
    with ig ign show ?thesis unfolding ignore_inv_def by blast
  qed simp
  have ou: "\<forall>e \<in> set (ch_buf (out ?F)). Path e \<noteq> p"
    using ig ign unfolding ignore_inv_def by blast
  have re: "recent_events ?F = ring_events w"
    using si f2 by (simp add: store_inv_def recent_events_def ring_events_def)
  from shouldIgnore_iff[of L cfg q] h pe ou f2 re show ?thesis by blast
qed

theorem ignored_paths_never_surface_witness:
  "shouldIgnore ex_lib ex_cfg ''/sync/tmp.swp'' \<and> ignore_inv ex_lib ex_cfg ex_watcher \<and>
   store_inv (heap ex_watcher, status ex_watcher) \<and>
   pending (run ex_lib ex_cfg ex_run (snd (Start ex_lib ex_cfg ex_os 1 ex_watcher))) ''/sync/tmp.swp'' = None \<and>
   ch_buf (out (run ex_lib ex_cfg ex_run (snd (Start ex_lib ex_cfg ex_os 1 ex_watcher))))
     = [\<lparr>Path = ''/sync/a.txt'', Op = OpCreate, When = ms 400\<rparr>] \<and>
   recent_events (run ex_lib ex_cfg ex_run (snd (Start ex_lib ex_cfg ex_os 1 ex_watcher))) = []"
proof -
  have a: "shouldIgnore ex_lib ex_cfg ''/sync/tmp.swp''"
    by (simp add: shouldIgnore_def filepath_Base_def ex_cfg_def ex_lib_def hasSuffix_def suffixes_def)
  have b: "ignore_inv ex_lib ex_cfg ex_watcher"
    by (simp add: ignore_inv_def ex_watcher_def make_chan_def)
  have c: "store_inv (heap ex_watcher, status ex_watcher)"
    by (simp add: ex_watcher_def store_inv_NewStore)
  have r: "ring_events ex_watcher = []"
    by (simp add: ring_events_def ex_watcher_def NewStore_def elems_def)
  have s: "snd (Start ex_lib ex_cfg ex_os 1 ex_watcher) =
      (status_Update \<lparr>State = StateIdle, Message = ''watching'', LastEvent = [],
                                   UpdatedAt = 0, RecentEvents = NilSlice\<rparr> 1
                     (ex_watcher\<lparr>mkdir_calls := [''/sync''], watcher := [''/sync'', ''/sync/docs'']\<rparr>))
                  \<lparr>running := True\<rparr>"
    by (simp add: Start_cases WalkDir_def visit_def shouldIgnore_def filepath_Base_def hasSuffix_def
        suffixes_def ex_cfg_def ex_lib_def ex_os_def ex_watcher_def)
  have d: "ch_buf (out (run ex_lib ex_cfg ex_run (snd (Start ex_lib ex_cfg ex_os 1 ex_watcher))))
     = [\<lparr>Path = ''/sync/a.txt'', Op = OpCreate, When = ms 400\<rparr>]"
    unfolding s
    by (simp add: ex_run_def watcher_defs status_Update_def Update_def go_clone_def slice_len_def
        IsZero_def NewStore_def ex_lib_def ex_cfg_def ex_os_def ex_watcher_def ms_def Let_def)
  from ignored_paths_never_surface[OF a b c, of "''/sync/tmp.swp''" ex_os 0 0 ex_watcher ex_run ex_os 1]
    a b c d r
  show ?thesis by simp
qed

subsection \<open>C8: the error of Start\<close>

text \<open>
  Claim C8 as stated fails in two ways. For the empty sync root: where \<open>os.MkdirAll\<close> and
  \<open>os.Lstat\<close> fail on the empty path (as they do on a real system), that root can neither
  be created nor walked, yet \<open>Start\<close> returns no error, because it returns before trying.
  And the error of \<open>Start\<close> is not the only one returned to a caller: \<open>NewWatcher\<close> returns
  the error of creating the fsnotify watcher, and \<open>Close\<close> the error of closing it.
\<close>

theorem Start_not_only_error_counterexample:
  "os_MkdirAll ex_os (SyncRoot (ex_cfg\<lparr>SyncRoot := []\<rparr>)) \<noteq> None \<and>
   fst (WalkDir ex_lib (ex_cfg\<lparr>SyncRoot := []\<rparr>) ex_os (SyncRoot (ex_cfg\<lparr>SyncRoot := []\<rparr>))
          (watcher ex_watcher)) \<noteq> None \<and>
   fst (Start ex_lib (ex_cfg\<lparr>SyncRoot := []\<rparr>) ex_os 1 ex_watcher) = None \<and>
   NewWatcher (Some (Err ''inotify_init1: too many open files'')) (ex_rt, NewStore 0)
     = Inl (Err ''inotify_init1: too many open files'') \<and>
   fst (Close ex_close_fails ex_watcher) = Some (Err ''close: bad file descriptor'')"
  by (simp add: Start_def WalkDir_def visit_def ex_os_def ex_cfg_def NewWatcher_def Close_def
      ex_close_fails_def)

text \<open>
  Claim C8, amended. For a non-empty sync root, \<open>Start\<close> returns an error exactly when
  \<open>os.MkdirAll\<close> on the root fails or the directory walk fails (as it does when the root
  cannot be examined), and the error returned is that failure. On an error the loop is
  not started and the status store, the heap, the pending table and the output channel
  are untouched; on success the loop runs and the store says \<open>StateIdle\<close>, "watching".
  Two other operations return an error to their caller: \<open>NewWatcher\<close>, exactly when the
  fsnotify watcher cannot be created, and \<open>Close\<close>, the result of closing it. The loop
  surfaces none: \<open>handleEvent\<close> records a non-ignored, known event whatever the operating
  system answered while a new directory was subscribed, leaving the loop running and the
  store as it was, and an error reported by fsnotify moves the store to \<open>StateError\<close> while
  the loop keeps running.
\<close>

theorem Start_error_iff:
  assumes "SyncRoot cfg \<noteq> []"
  shows "fst (Start L cfg os now w) =
           (case os_MkdirAll os (SyncRoot cfg) of
              Some e \<Rightarrow> Some e
            | None \<Rightarrow> fst (WalkDir L cfg os (SyncRoot cfg) (watcher w))) \<and>
         (fst (Start L cfg os now w) \<noteq> None \<longleftrightarrow>
            os_MkdirAll os (SyncRoot cfg) \<noteq> None \<or>
            fst (WalkDir L cfg os (SyncRoot cfg) (watcher w)) \<noteq> None) \<and>
         (os_Lstat os (SyncRoot cfg) = Inl e \<longrightarrow> fst (WalkDir L cfg os (SyncRoot cfg) (watcher w)) = Some e) \<and>
         (fst (Start L cfg os now w) \<noteq> None \<longrightarrow>
            running (snd (Start L cfg os now w)) = running w \<and>
            status (snd (Start L cfg os now w)) = status w \<and>
            heap (snd (Start L cfg os now w)) = heap w \<and>
            pending (snd (Start L cfg os now w)) = pending w \<and>
            out (snd (Start L cfg os now w)) = out w) \<and>
         (fst (Start L cfg os now w) = None \<longrightarrow>
            running (snd (Start L cfg os now w)) \<and>
            State (snapshot (status (snd (Start L cfg os now w)))) = StateIdle \<and>
            Message (snapshot (status (snd (Start L cfg os now w)))) = ''watching'') \<and>
         (\<not> shouldIgnore L cfg (Name evt) \<and> normalizeOp (fsOp evt) \<noteq> OpUnknown \<longrightarrow>
            pending (handleEvent L cfg os now evt w) (Name evt) =
              Some \<lparr>Path = Name evt, Op = normalizeOp (fsOp evt), When = now + debounce w\<rparr>) \<and>
         (NewWatcher fe rs = Inl e' \<longleftrightarrow> fe = Some e') \<and>
         fst (Close fc w) = fst (fc (watcher w)) \<and>
         pending (handleEvent L cfg os now evt w) = pending (handleEvent L cfg os' now evt w) \<and>
         running (handleEvent L cfg os now evt w) = running w \<and>
         status (handleEvent L cfg os now evt w) = status w \<and>
         (running w \<longrightarrow>
            running (run_step L cfg (os, now, FsError err) w) \<and>
            State (snapshot (status (run_step L cfg (os, now, FsError err) w))) = StateError)"
proof -
  let ?p = "\<lparr>State = StateIdle, Message = ''watching'', LastEvent = [],
             UpdatedAt = 0, RecentEvents = NilSlice\<rparr>"
  let ?w = "w\<lparr>mkdir_calls := mkdir_calls w @ [SyncRoot cfg],
              watcher := snd (WalkDir L cfg os (SyncRoot cfg) (watcher w))\<rparr>"
  note S = status_Update_State_Message[of ?p now ?w]
  have a: "fst (Start L cfg os now w) =
           (case os_MkdirAll os (SyncRoot cfg) of
              Some e \<Rightarrow> Some e
            | None \<Rightarrow> fst (WalkDir L cfg os (SyncRoot cfg) (watcher w)))"
    using assms by (auto simp: Start_cases split: option.splits)
  have b: "fst (Start L cfg os now w) \<noteq> None \<longleftrightarrow>
            os_MkdirAll os (SyncRoot cfg) \<noteq> None \<or>
            fst (WalkDir L cfg os (SyncRoot cfg) (watcher w)) \<noteq> None"
    unfolding a by (auto split: option.splits)
  have c: "os_Lstat os (SyncRoot cfg) = Inl e \<longrightarrow> fst (WalkDir L cfg os (SyncRoot cfg) (watcher w)) = Some e"
    by (simp add: WalkDir_Lstat_fails)
  have d: "fst (Start L cfg os now w) \<noteq> None \<longrightarrow>
            running (snd (Start L cfg os now w)) = running w \<and>
            status (snd (Start L cfg os now w)) = status w \<and>
            heap (snd (Start L cfg os now w)) = heap w \<and>
            pending (snd (Start L cfg os now w)) = pending w \<and>
            out (snd (Start L cfg os now w)) = out w"
    using assms by (simp add: Start_cases)
  have e: "fst (Start L cfg os now w) = None \<longrightarrow>
            running (snd (Start L cfg os now w)) \<and>
            State (snapshot (status (snd (Start L cfg os now w)))) = StateIdle \<and>
            Message (snapshot (status (snd (Start L cfg os now w)))) = ''watching''"
  proof (cases "os_MkdirAll os (SyncRoot cfg) = None \<and> fst (WalkDir L cfg os (SyncRoot cfg) (watcher w)) = None")
    case True
    with assms S show ?thesis by (simp add: Start_cases)
  next
    case False
    then have "fst (Start L cfg os now w) \<noteq> None" using b by blast
    then show ?thesis by blast
  qed
  have f: "\<not> shouldIgnore L cfg (Name evt) \<and> normalizeOp (fsOp evt) \<noteq> OpUnknown \<longrightarrow>
            pending (handleEvent L cfg os now evt w) (Name evt) =
              Some \<lparr>Path = Name evt, Op = normalizeOp (fsOp evt), When = now + debounce w\<rparr>"
    by (simp add: handleEvent_pending)
  have g: "NewWatcher fe rs = Inl e' \<longleftrightarrow> fe = Some e'"
    by (rule NewWatcher_error)
  have h: "fst (Close fc w) = fst (fc (watcher w))"
    by (rule Close_error)
  have i: "pending (handleEvent L cfg os now evt w) = pending (handleEvent L cfg os' now evt w) \<and>
         running (handleEvent L cfg os now evt w) = running w \<and>
         status (handleEvent L cfg os now evt w) = status w"
    by (simp add: handleEvent_pending handleEvent_fields)
  have j: "running w \<longrightarrow>
            running (run_step L cfg (os, now, FsError err) w) \<and>
            State (snapshot (status (run_step L cfg (os, now, FsError err) w))) = StateError"
    using run_step_FsError[of w L cfg os now err] by blast
  from a b c d e f g h i j show ?thesis by blast
qed

theorem Start_error_iff_witness:
  "SyncRoot ex_cfg \<noteq> [] \<and>
   fst (Start ex_lib ex_cfg ex_os_readonly 1 ex_watcher) = Some (Err ''mkdir: permission denied'') \<and>
   \<not> running (snd (Start ex_lib ex_cfg ex_os_readonly 1 ex_watcher)) \<and>
   status (snd (Start ex_lib ex_cfg ex_os_readonly 1 ex_watcher)) = NewStore 0 \<and>
   fst (Start ex_lib ex_cfg ex_os_unreadable 1 ex_watcher) = Some (Err ''lstat: permission denied'') \<and>
   \<not> running (snd (Start ex_lib ex_cfg ex_os_unreadable 1 ex_watcher)) \<and>
   fst (Start ex_lib ex_cfg ex_os 1 ex_watcher) = None \<and>
   running (snd (Start ex_lib ex_cfg ex_os 1 ex_watcher)) \<and>
   Message (snapshot (status (snd (Start ex_lib ex_cfg ex_os 1 ex_watcher)))) = ''watching'' \<and>
   pending (handleEvent ex_lib ex_cfg ex_os_readonly (ms 7)
              \<lparr>Name = ''/sync/a.txt'', fsOp = fsnotify_Write\<rparr> ex_watcher) ''/sync/a.txt''
     = Some \<lparr>Path = ''/sync/a.txt'', Op = OpWrite, When = ms 307\<rparr> \<and>
   NewWatcher (Some (Err ''inotify_init1: too many open files'')) (ex_rt, NewStore 0)
     = Inl (Err ''inotify_init1: too many open files'') \<and>
   fst (Close ex_close_fails ex_watcher) = Some (Err ''close: bad file descriptor'') \<and>
   running (run_step ex_lib ex_cfg (ex_os, 5, FsError (Err ''read: interrupted''))
              (ex_watcher\<lparr>running := True\<rparr>)) \<and>
   State (snapshot (status (run_step ex_lib ex_cfg (ex_os, 5, FsError (Err ''read: interrupted''))
              (ex_watcher\<lparr>running := True\<rparr>)))) = StateError"
proof -
  have r: "SyncRoot ex_cfg \<noteq> []" by (simp add: ex_cfg_def)
  have nw: "NewWatcher (Some (Err ''inotify_init1: too many open files'')) (ex_rt, NewStore 0)
     = Inl (Err ''inotify_init1: too many open files'')"
    using Start_error_iff[OF r, of ex_lib ex_os 1 ex_watcher "Err ''none''"
         "\<lparr>Name = ''/sync/a.txt'', fsOp = fsnotify_Write\<rparr>"
         "Some (Err ''inotify_init1: too many open files'')" "(ex_rt, NewStore 0)"
         "Err ''inotify_init1: too many open files''"]
    by blast
  have cl: "fst (Close ex_close_fails ex_watcher) = Some (Err ''close: bad file descriptor'')"
    using Start_error_iff[OF r, of ex_lib ex_os 1 ex_watcher "Err ''none''"
         "\<lparr>Name = ''/sync/a.txt'', fsOp = fsnotify_Write\<rparr>" None "(ex_rt, NewStore 0)"
         "Err ''none''" ex_close_fails]
    by (simp add: ex_close_fails_def)
  have fe: "running (run_step ex_lib ex_cfg (ex_os, 5, FsError (Err ''read: interrupted''))
              (ex_watcher\<lparr>running := True\<rparr>)) \<and>
   State (snapshot (status (run_step ex_lib ex_cfg (ex_os, 5, FsError (Err ''read: interrupted''))
              (ex_watcher\<lparr>running := True\<rparr>)))) = StateError"
    using Start_error_iff[OF r, of ex_lib ex_os 5 "ex_watcher\<lparr>running := True\<rparr>" "Err ''none''"
         "\<lparr>Name = ''/sync/a.txt'', fsOp = fsnotify_Write\<rparr>" None "(ex_rt, NewStore 0)"
         "Err ''none''" ex_close_fails ex_os "Err ''read: interrupted''"]
    by simp
  have i: "\<not> shouldIgnore ex_lib ex_cfg (Name \<lparr>Name = ''/sync/a.txt'', fsOp = fsnotify_Write\<rparr>)"
    by (simp add: shouldIgnore_def filepath_Base_def hasSuffix_def suffixes_def ex_cfg_def ex_lib_def)
  have n: "normalizeOp (fsOp \<lparr>Name = ''/sync/a.txt'', fsOp = fsnotify_Write\<rparr>) = OpWrite"
    by (simp add: normalizeOp_def fsnotify_Create_def fsnotify_Write_def)
  have d: "debounce ex_watcher = ms 300" by (simp add: ex_watcher_def ms_def)
  have h: "pending (handleEvent ex_lib ex_cfg ex_os_readonly (ms 7)
              \<lparr>Name = ''/sync/a.txt'', fsOp = fsnotify_Write\<rparr> ex_watcher) ''/sync/a.txt''
     = Some \<lparr>Path = ''/sync/a.txt'', Op = OpWrite, When = ms 307\<rparr>"
    using Start_error_iff[OF r, of ex_lib ex_os_readonly "ms 7" ex_watcher "Err ''none''"
         "\<lparr>Name = ''/sync/a.txt'', fsOp = fsnotify_Write\<rparr>"] i n d
    by (simp add: ms_def)
  have m1: "os_MkdirAll ex_os_readonly (SyncRoot ex_cfg) = Some (Err ''mkdir: permission denied'')"
    by (simp add: ex_os_readonly_def)
  have m2: "os_MkdirAll ex_os_unreadable (SyncRoot ex_cfg) = None"
    by (simp add: ex_os_unreadable_def ex_os_def ex_cfg_def)
  have l2: "os_Lstat ex_os_unreadable (SyncRoot ex_cfg) = Inl (Err ''lstat: permission denied'')"
    by (simp add: ex_os_unreadable_def)
  have m3: "os_MkdirAll ex_os (SyncRoot ex_cfg) = None"
    by (simp add: ex_os_def ex_cfg_def)
  have w3: "fst (WalkDir ex_lib ex_cfg ex_os (SyncRoot ex_cfg) (watcher ex_watcher)) = None"
    by (simp add: WalkDir_def visit_def shouldIgnore_def filepath_Base_def hasSuffix_def
        suffixes_def ex_cfg_def ex_lib_def ex_os_def ex_watcher_def)
  have x: "running ex_watcher = False \<and> status ex_watcher = NewStore 0"
    by (simp add: ex_watcher_def)
  from Start_error_iff[OF r, of ex_lib ex_os_readonly 1 ex_watcher]
       Start_error_iff[OF r, of ex_lib ex_os_unreadable 1 ex_watcher "Err ''lstat: permission denied''"]
       Start_error_iff[OF r, of ex_lib ex_os 1 ex_watcher]
       r m1 m2 l2 m3 w3 x h nw cl fe
  show ?thesis by simp
qed

subsection \<open>C9: the empty sync root\<close>

text \<open>
  Claim C9. With an empty sync root \<open>Start\<close> returns nil and the watcher state it was
  given: no \<open>MkdirAll\<close> call, no subscription, no status update, no loop. A watcher that
  was not running stays as it is under every sequence of loop inputs, except that a
  consumer may take what was already in the output channel; with an empty channel the
  state never changes, so nothing is ever emitted.
\<close>

theorem Start_empty_root:
  assumes "SyncRoot cfg = []"
  shows "Start L cfg os now w = (None, w) \<and>
         (\<not> running w \<longrightarrow>
            (\<exists>k. run L cfg xs (snd (Start L cfg os now w))
                   = w\<lparr>out := (out w)\<lparr>ch_buf := drop k (ch_buf (out w))\<rparr>\<rparr>)) \<and>
         (\<not> running w \<and> ch_buf (out w) = [] \<longrightarrow>
            run L cfg xs (snd (Start L cfg os now w)) = w)"
proof -
  have s: "Start L cfg os now w = (None, w)" using assms by (simp add: Start_def)
  have a: "\<not> running w \<longrightarrow>
            (\<exists>k. run L cfg xs (snd (Start L cfg os now w))
                   = w\<lparr>out := (out w)\<lparr>ch_buf := drop k (ch_buf (out w))\<rparr>\<rparr>)"
    using run_not_running[of w L cfg xs] by (simp add: s)
  have b: "\<not> running w \<and> ch_buf (out w) = [] \<longrightarrow> run L cfg xs (snd (Start L cfg os now w)) = w"
  proof
    assume h: "\<not> running w \<and> ch_buf (out w) = []"
    with a obtain k where "run L cfg xs (snd (Start L cfg os now w))
                   = w\<lparr>out := (out w)\<lparr>ch_buf := drop k (ch_buf (out w))\<rparr>\<rparr>" by blast
    moreover have "(out w)\<lparr>ch_buf := drop k (ch_buf (out w))\<rparr> = out w" using h by simp
    ultimately show "run L cfg xs (snd (Start L cfg os now w)) = w" by simp
  qed
  from s a b show ?thesis by blast
qed

theorem Start_empty_root_witness:
  "SyncRoot (ex_cfg\<lparr>SyncRoot := []\<rparr>) = [] \<and>
   Start ex_lib (ex_cfg\<lparr>SyncRoot := []\<rparr>) ex_os 1 ex_watcher = (None, ex_watcher) \<and>
   run ex_lib (ex_cfg\<lparr>SyncRoot := []\<rparr>) ex_run
     (snd (Start ex_lib (ex_cfg\<lparr>SyncRoot := []\<rparr>) ex_os 1 ex_watcher)) = ex_watcher \<and>
   ch_buf (out ex_watcher) = [] \<and> mkdir_calls ex_watcher = [] \<and> watcher ex_watcher = []"
proof -
  have r: "SyncRoot (ex_cfg\<lparr>SyncRoot := []\<rparr>) = []" by simp
  have x: "\<not> running ex_watcher \<and> ch_buf (out ex_watcher) = [] \<and> mkdir_calls ex_watcher = [] \<and>
           watcher ex_watcher = []"
    by (simp add: ex_watcher_def make_chan_def)
  from Start_empty_root[OF r, of ex_lib ex_os 1 ex_watcher ex_run] x
  have "Start ex_lib (ex_cfg\<lparr>SyncRoot := []\<rparr>) ex_os 1 ex_watcher = (None, ex_watcher)"
    and "run ex_lib (ex_cfg\<lparr>SyncRoot := []\<rparr>) ex_run
     (snd (Start ex_lib (ex_cfg\<lparr>SyncRoot := []\<rparr>) ex_os 1 ex_watcher)) = ex_watcher"
    by blast+
  with r x show ?thesis by blast
qed

end
